theory Spec2Isabelle
  imports Complex_Main "HOL-Library.List_Lexorder" "HOL-Library.Product_Lexorder"
begin

section \<open>Strings\<close>

text \<open>
  A Python \<open>str\<close> is a sequence of Unicode code points, so a string is a list of
  natural numbers, one per code point (not per byte). The characters the program names:
  \<open>(\<close> is 40, \<open>)\<close> is 41, the line feed is 10, and the Hangul syllable meaning
  "station" (U+C5ED) is 50669. Column labels and amenity codes are ASCII and are
  written as HOL strings.
\<close>

type_synonym pystr = "nat list"

abbreviation (input) LPAREN :: nat where "LPAREN \<equiv> 40"
abbreviation (input) RPAREN :: nat where "RPAREN \<equiv> 41"
abbreviation (input) LF :: nat where "LF \<equiv> 10"
abbreviation (input) YEOK :: nat where "YEOK \<equiv> 50669"

text \<open>
  \<open>str.strip()\<close> without argument removes the characters for which
  \<open>str.isspace()\<close> holds from both ends. These are the code points below.
\<close>

definition is_space :: "nat \<Rightarrow> bool" where
  "is_space c \<longleftrightarrow>
     (9 \<le> c \<and> c \<le> 13) \<or> (28 \<le> c \<and> c \<le> 32) \<or> c = 133 \<or> c = 160 \<or> c = 5760 \<or>
     (8192 \<le> c \<and> c \<le> 8202) \<or> c = 8232 \<or> c = 8233 \<or> c = 8239 \<or> c = 8287 \<or> c = 12288"

definition strip :: "pystr \<Rightarrow> pystr" where
  "strip s = rev (dropWhile is_space (rev (dropWhile is_space s)))"

text \<open>\<open>s.replace(c, "")\<close> for a one-character \<open>c\<close> deletes every occurrence of it.\<close>

definition replace_char :: "nat \<Rightarrow> pystr \<Rightarrow> pystr" where
  "replace_char c s = filter (\<lambda>x. x \<noteq> c) s"

section \<open>The name normalizer\<close>

text \<open>
  \<^verbatim>\<open>
  def norm(name: str) -> str:
      return re.sub(r"\(.*?\)", "", str(name)).replace("<U+C5ED>", "").strip()
  \<close>
  The pattern is \<open>\(\<close>, then \<open>.*?\<close>, then \<open>\)\<close>. No flag is given, so \<open>.\<close>
  matches every character but the line feed. \<open>lazy_dot_close\<close> is the match of
  \<open>.*?\)\<close> at the head of a string: the lazy star first tries to close, and only
  otherwise lets \<open>.\<close> take one more character. It returns the text after the match.
  \<open>re_sub\<close> is the scan of \<open>re.sub\<close> with the empty replacement: at each position
  the pattern is tried; a match is dropped and the scan goes on behind it, and where
  the pattern does not match, the character is copied.
\<close>

fun lazy_dot_close :: "pystr \<Rightarrow> pystr option" where
  "lazy_dot_close [] = None"
| "lazy_dot_close (c # cs) =
     (if c = RPAREN then Some cs else if c = LF then None else lazy_dot_close cs)"

function re_sub :: "pystr \<Rightarrow> pystr" where
  "re_sub [] = []"
| "re_sub (c # cs) =
     (if c = LPAREN then
        (case lazy_dot_close cs of
           Some rest \<Rightarrow> re_sub rest
         | None \<Rightarrow> c # re_sub cs)
      else c # re_sub cs)"
  by pat_completeness auto
termination
proof (relation "measure length")
  show "wf (measure length)" by simp
next
  fix c :: nat and cs rest :: pystr
  assume "lazy_dot_close cs = Some rest"
  moreover have "\<And>r. lazy_dot_close cs = Some r \<Longrightarrow> length r < length cs"
    by (induction cs) (auto split: if_splits)
  ultimately show "(rest, c # cs) \<in> measure length" by fastforce
qed auto

definition norm_name :: "pystr \<Rightarrow> pystr" where
  "norm_name name = strip (replace_char YEOK (re_sub name))"

subsection \<open>The normalizer as the specification words it\<close>

text \<open>
  The specification describes three passes: delete every span from a \<open>(\<close> to the
  next \<open>)\<close>, delete every occurrence of the station character, trim. The first pass,
  written from these words alone: a \<open>(\<close> that has a \<open>)\<close> somewhere behind it is
  deleted together with everything up to and including the first such \<open>)\<close>.
\<close>

function spec_delete_spans :: "pystr \<Rightarrow> pystr" where
  "spec_delete_spans [] = []"
| "spec_delete_spans (c # cs) =
     (if c = LPAREN \<and> RPAREN \<in> set cs
      then spec_delete_spans (tl (dropWhile (\<lambda>x. x \<noteq> RPAREN) cs))
      else c # spec_delete_spans cs)"
  by pat_completeness auto
termination
proof (relation "measure length")
  show "wf (measure length)" by simp
next
  fix c :: nat and cs :: pystr
  have "length (dropWhile (\<lambda>x. x \<noteq> RPAREN) cs) \<le> length cs"
    by (rule length_dropWhile_le)
  then show "(tl (dropWhile (\<lambda>x. x \<noteq> RPAREN) cs), c # cs) \<in> measure length"
    by simp
qed auto

definition spec_norm :: "pystr \<Rightarrow> pystr" where
  "spec_norm s = strip (filter (\<lambda>x. x \<noteq> YEOK) (spec_delete_spans s))"

text \<open>
  No line feed lies between a \<open>(\<close> of the string and the next \<open>)\<close> behind it.
\<close>

fun no_lf_in_span :: "pystr \<Rightarrow> bool" where
  "no_lf_in_span [] = True"
| "no_lf_in_span (c # cs) =
     ((c \<noteq> LPAREN \<or> RPAREN \<notin> set cs \<or> LF \<notin> set (takeWhile (\<lambda>x. x \<noteq> RPAREN) cs))
      \<and> no_lf_in_span cs)"

text \<open>The number of opening parentheses in a string.\<close>

definition parens :: "pystr \<Rightarrow> nat" where
  "parens s = count_list s LPAREN"

text \<open>A string on which the first pass of the normalizer finds nothing to delete.\<close>

fun stable :: "pystr \<Rightarrow> bool" where
  "stable [] = True"
| "stable (c # cs) = ((c \<noteq> LPAREN \<or> lazy_dot_close cs = None) \<and> stable cs)"

section \<open>Tables\<close>

text \<open>
  \<open>pd.DataFrame(rows)\<close> is built from the list of row mappings that the XML decoder
  returns, one mapping per \<open>row\<close> element, from field name to text. A table is this
  list. A field holds text, or \<open>None\<close> where the element is empty; a field that a row
  does not have reads as NaN in the table. A column label is in \<open>df.columns\<close> when
  some row has the field.
\<close>

datatype cell = PyNone | NaN | Str pystr

type_synonym row = "string \<rightharpoonup> cell"
type_synonym dataframe = "row list"

definition cell_at :: "row \<Rightarrow> string \<Rightarrow> cell" where
  "cell_at r col = (case r col of None \<Rightarrow> NaN | Some v \<Rightarrow> v)"

definition has_column :: "dataframe \<Rightarrow> string \<Rightarrow> bool" where
  "has_column df col = list_ex (\<lambda>r. r col \<noteq> None) df"

definition column :: "dataframe \<Rightarrow> string \<Rightarrow> cell list" where
  "column df col = map (\<lambda>r. cell_at r col) df"

definition dropna :: "cell list \<Rightarrow> cell list" where
  "dropna cells = filter (\<lambda>v. v \<noteq> PyNone \<and> v \<noteq> NaN) cells"

text \<open>The strings among a list of cells; after \<open>dropna\<close> these are all of them.\<close>

fun str_values :: "cell list \<Rightarrow> pystr list" where
  "str_values [] = []"
| "str_values (Str s # cells) = s # str_values cells"
| "str_values (_ # cells) = str_values cells"

text \<open>\<open>df[df[col].isin(targets)]\<close>: the rows whose cell is one of the target strings.\<close>

definition isin_rows :: "dataframe \<Rightarrow> string \<Rightarrow> pystr list \<Rightarrow> dataframe" where
  "isin_rows df col targets =
     filter (\<lambda>r. case cell_at r col of Str s \<Rightarrow> s \<in> set targets | _ \<Rightarrow> False) df"

section \<open>The name map\<close>

text \<open>
  \<^verbatim>\<open>
  def build_map(dfs):
      raw = set()
      for df in dfs:
          for col in ("STN_NM", "SBWY_STNS_NM", "STATION_NAME"):
              if col in df.columns:
                  raw.update(df[col].dropna())
      n2r = {}
      for r in raw:
          n2r.setdefault(norm(r), []).append(r)
      return n2r
  \<close>
  A \<open>dict\<close> keeps its keys in insertion order, and the order matters to the fuzzy
  search below, so the name map is an association list with one entry per key. The
  order in which a Python \<open>set\<close> is iterated is not fixed by the language; it is the
  parameter \<open>order\<close>, which lists the elements of a set, each once
  (\<open>iteration\<close>).
\<close>

type_synonym name_map = "(pystr \<times> pystr list) list"

definition name_columns :: "string list" where
  "name_columns = [''STN_NM'', ''SBWY_STNS_NM'', ''STATION_NAME'']"

definition raw_names :: "dataframe list \<Rightarrow> pystr set" where
  "raw_names dfs =
     fold (\<lambda>df raw.
        fold (\<lambda>col raw.
           if has_column df col then raw \<union> set (str_values (dropna (column df col)))
           else raw) name_columns raw) dfs {}"

definition setdefault_append :: "name_map \<Rightarrow> pystr \<Rightarrow> pystr \<Rightarrow> name_map" where
  "setdefault_append n2r k r =
     (if k \<in> fst ` set n2r
      then map (\<lambda>(k', v). if k' = k then (k', v @ [r]) else (k', v)) n2r
      else n2r @ [(k, [r])])"

definition iteration :: "('a set \<Rightarrow> 'a list) \<Rightarrow> 'a set \<Rightarrow> bool" where
  "iteration order S \<longleftrightarrow> distinct (order S) \<and> set (order S) = S"

definition build_map :: "(pystr set \<Rightarrow> pystr list) \<Rightarrow> dataframe list \<Rightarrow> name_map" where
  "build_map order dfs =
     fold (\<lambda>r n2r. setdefault_append n2r (norm_name r) r) (order (raw_names dfs)) []"

section \<open>The resolver\<close>

text \<open>
  \<^verbatim>\<open>
  key = norm(query)
  if key in nmap:
      targets = nmap[key]
  else:
      close = get_close_matches(key, nmap.keys(), n=1, cutoff=0.4)
      targets = nmap.get(close[0], []) if close else []
  \<close>
  \<open>difflib.get_close_matches(word, possibilities, n, cutoff)\<close> scores every
  possibility \<open>x\<close> with the similarity ratio of \<open>x\<close> and \<open>word\<close>, keeps the pairs
  \<open>(score, x)\<close> whose score reaches the cutoff, and returns the \<open>x\<close> of the \<open>n\<close>
  largest pairs. The ratio is the library's and is the parameter \<open>ratio\<close>; its value
  is a number, read as a real. With \<open>n = 1\<close>, as here, the largest pair is found by
  \<open>max\<close>, which keeps the first of the greatest elements. Pairs compare by score
  first and by string, code point by code point, second.
\<close>

definition py_max :: "'a::linorder \<Rightarrow> 'a list \<Rightarrow> 'a" where
  "py_max x xs = foldl (\<lambda>m y. if y > m then y else m) x xs"

definition nlargest1 :: "'a::linorder list \<Rightarrow> 'a list" where
  "nlargest1 xs = (case xs of [] \<Rightarrow> [] | x # r \<Rightarrow> [py_max x r])"

definition get_close_matches ::
  "(pystr \<Rightarrow> pystr \<Rightarrow> real) \<Rightarrow> pystr \<Rightarrow> pystr list \<Rightarrow> real \<Rightarrow> pystr list" where
  "get_close_matches ratio word possibilities cutoff =
     map snd (nlargest1
       (map (\<lambda>x. (ratio x word, x)) (filter (\<lambda>x. ratio x word \<ge> cutoff) possibilities)))"

definition targets ::
  "(pystr \<Rightarrow> pystr \<Rightarrow> real) \<Rightarrow> name_map \<Rightarrow> pystr \<Rightarrow> pystr list" where
  "targets ratio nmap query =
     (let key = norm_name query in
      case map_of nmap key of
        Some v \<Rightarrow> v
      | None \<Rightarrow>
          (case get_close_matches ratio key (map fst nmap) (4 / 10) of
             [] \<Rightarrow> []
           | c # _ \<Rightarrow> (case map_of nmap c of Some v \<Rightarrow> v | None \<Rightarrow> [])))"

section \<open>Digits and integers\<close>

text \<open>
  The exceptions the modelled code can raise. \<open>RequestError\<close> stands for a failure of
  the HTTP request or of the XML decoder on a malformed body.
\<close>

datatype error = AttributeError | KeyError | TypeError | ValueError | RequestError

text \<open>
  \<open>str.isdigit()\<close> holds for a non-empty string of characters with a Unicode digit
  value, \<open>int()\<close> reads only the characters with a decimal value. The decimal digits
  come in blocks of ten consecutive code points, zero first; \<open>decimal_blocks\<close> lists
  the first code point of each block. \<open>digit_ranges\<close> lists the characters that are
  digits without being decimal: superscripts, subscripts, circled digits and the like
  (Unicode 14).
\<close>

definition decimal_blocks :: "nat list" where
  "decimal_blocks =
    [48, 1632, 1776, 1984, 2406, 2534, 2662, 2790, 2918, 3046, 3174, 3302, 3430,
     3558, 3664, 3792, 3872, 4160, 4240, 6112, 6160, 6470, 6608, 6784, 6800, 6992,
     7088, 7232, 7248, 42528, 43216, 43264, 43472, 43504, 43600, 44016, 65296,
     66720, 68912, 69734, 69872, 69942, 70096, 70384, 70736, 70864, 71248, 71360,
     71472, 71904, 72016, 72784, 73040, 73120, 92768, 92864, 93008, 120782, 120792,
     120802, 120812, 120822, 123200, 123632, 125264, 130032]"

definition digit_ranges :: "(nat \<times> nat) list" where
  "digit_ranges =
    [(178, 179), (185, 185), (4969, 4977), (6618, 6618), (8304, 8304), (8308, 8313),
     (8320, 8329), (9312, 9320), (9332, 9340), (9352, 9360), (9450, 9450),
     (9461, 9469), (9471, 9471), (10102, 10110), (10112, 10120), (10122, 10130),
     (68160, 68163), (69216, 69224), (69714, 69722), (127232, 127242)]"

definition decimal_value :: "nat \<Rightarrow> nat option" where
  "decimal_value c =
     (case find (\<lambda>b. b \<le> c \<and> c < b + 10) decimal_blocks of
        Some b \<Rightarrow> Some (c - b)
      | None \<Rightarrow> None)"

definition is_digit :: "nat \<Rightarrow> bool" where
  "is_digit c \<longleftrightarrow>
     decimal_value c \<noteq> None \<or> list_ex (\<lambda>(lo, hi). lo \<le> c \<and> c \<le> hi) digit_ranges"

definition isdigit :: "pystr \<Rightarrow> bool" where
  "isdigit s \<longleftrightarrow> s \<noteq> [] \<and> list_all is_digit s"

text \<open>
  \<open>int(s)\<close> on a string, base ten. Characters beyond ASCII are first replaced: a
  space character by a blank, a decimal digit by its ASCII digit, and any other makes
  the call fail. Then come blanks, an optional sign, the digits, in which single
  underscores may stand between two digits, and blanks again up to the end. The
  blanks skipped here are the six of the C locale. A literal of more digits than
  \<open>int_max_str_digits\<close> (the interpreter's default) is refused. Every failure is a
  \<open>ValueError\<close>.
\<close>

definition int_max_str_digits :: nat where
  "int_max_str_digits = 4300"

definition c_isspace :: "nat \<Rightarrow> bool" where
  "c_isspace c \<longleftrightarrow> c = 32 \<or> (9 \<le> c \<and> c \<le> 13)"

definition ascii_digit :: "nat \<Rightarrow> bool" where
  "ascii_digit c \<longleftrightarrow> 48 \<le> c \<and> c \<le> 57"

definition to_ascii :: "nat \<Rightarrow> nat option" where
  "to_ascii c =
     (if c < 128 then Some c
      else if is_space c then Some 32
      else map_option (\<lambda>d. 48 + d) (decimal_value c))"

fun double_underscore :: "pystr \<Rightarrow> bool" where
  "double_underscore (a # b # cs) = ((a = 95 \<and> b = 95) \<or> double_underscore (b # cs))"
| "double_underscore _ = False"

definition digits_value :: "pystr \<Rightarrow> nat" where
  "digits_value ds = foldl (\<lambda>acc c. 10 * acc + (c - 48)) 0 ds"

definition py_int :: "pystr \<Rightarrow> error + int" where
  "py_int s =
     (case those (map to_ascii s) of
        None \<Rightarrow> Inl ValueError
      | Some a \<Rightarrow>
         (let a1 = dropWhile c_isspace a;
              neg = (a1 \<noteq> [] \<and> hd a1 = 45);
              a2 = (if a1 \<noteq> [] \<and> (hd a1 = 45 \<or> hd a1 = 43) then tl a1 else a1);
              body = takeWhile (\<lambda>c. ascii_digit c \<or> c = 95) a2;
              trail = dropWhile (\<lambda>c. ascii_digit c \<or> c = 95) a2;
              ds = filter ascii_digit body
          in if body = [] \<or> hd body = 95 \<or> last body = 95 \<or> double_underscore body
                \<or> \<not> list_all c_isspace trail \<or> length ds > int_max_str_digits
             then Inl ValueError
             else Inr (if neg then - int (digits_value ds) else int (digits_value ds))))"

text \<open>\<open>str(n)\<close> of an integer: its decimal digits, behind a minus sign if negative.\<close>

fun digits10 :: "nat \<Rightarrow> pystr" where
  "digits10 n = (if n < 10 then [48 + n] else digits10 (n div 10) @ [48 + n mod 10])"

definition str_int :: "int \<Rightarrow> pystr" where
  "str_int i = (if i < 0 then 45 # digits10 (nat (- i)) else digits10 (nat i))"

text \<open>\<open>str(v)\<close> and \<open>int(v)\<close> of a table cell.\<close>

definition str_cell :: "cell \<Rightarrow> pystr" where
  "str_cell v = (case v of PyNone \<Rightarrow> [78, 111, 110, 101] | NaN \<Rightarrow> [110, 97, 110] | Str s \<Rightarrow> s)"

definition int_cell :: "cell \<Rightarrow> error + int" where
  "int_cell v = (case v of PyNone \<Rightarrow> Inl TypeError | NaN \<Rightarrow> Inl ValueError | Str s \<Rightarrow> py_int s)"

section \<open>The fetcher\<close>

text \<open>
  What \<open>xmltodict.parse\<close> returns: an element with children is a mapping from tag
  to value, a repeated tag maps to the list of its values, an element with text only
  is the text, and an empty element is \<open>None\<close>. The document is a mapping with the
  root tag as its one key, here the pair of the tag and the root's value.
\<close>

datatype xval = XNone | XStr pystr | XDict "(string \<times> xval) list" | XList "xval list"

type_synonym envelope = "string \<times> xval"

text \<open>
  \<^verbatim>\<open>
  def parse_xml(text: str):
      p = xmltodict.parse(text)
      root = next(iter(p))
      rows = p[root].get("row", [])
      rows = [rows] if isinstance(rows, dict) else rows
      total = int(p[root]["list_total_count"])
      return rows, total
  \<close>
  Only a mapping has \<open>get\<close>; \<open>int\<close> of \<open>None\<close>, a mapping or a list is a
  \<open>TypeError\<close>.
\<close>

definition int_xval :: "xval \<Rightarrow> error + int" where
  "int_xval v = (case v of XStr s \<Rightarrow> py_int s | _ \<Rightarrow> Inl TypeError)"

definition parse_xml :: "envelope \<Rightarrow> error + (xval \<times> int)" where
  "parse_xml p =
     (case snd p of
        XDict d \<Rightarrow>
          (let rows = (case map_of d ''row'' of None \<Rightarrow> XList [] | Some v \<Rightarrow> v);
               rows = (case rows of XDict _ \<Rightarrow> XList [rows] | _ \<Rightarrow> rows)
           in case map_of d ''list_total_count'' of
                None \<Rightarrow> Inl KeyError
              | Some t \<Rightarrow> (case int_xval t of Inl e \<Rightarrow> Inl e | Inr tot \<Rightarrow> Inr (rows, tot)))
      | _ \<Rightarrow> Inl AttributeError)"

text \<open>
  \<open>range(start, stop, step)\<close>: a zero step is a \<open>ValueError\<close>; otherwise the
  length of the range is computed first, as the interpreter does.
\<close>

definition py_range :: "int \<Rightarrow> int \<Rightarrow> int \<Rightarrow> error + int list" where
  "py_range start stop step =
     (if step = 0 then Inl ValueError
      else if step > 0
      then Inr (map (\<lambda>i. start + int i * step) [0..<nat ((stop - start + step - 1) div step)])
      else Inr (map (\<lambda>i. start + int i * step) [0..<nat ((start - stop - step - 1) div (- step))]))"

text \<open>
  \<open>rows.extend(add)\<close>: only a list has \<open>extend\<close>; the argument is iterated, which
  \<open>None\<close> does not allow, and which takes a string apart into its characters.
\<close>

definition extend :: "xval \<Rightarrow> xval \<Rightarrow> error + xval" where
  "extend rows add =
     (case rows of
        XList xs \<Rightarrow>
          (case add of
             XList ys \<Rightarrow> Inr (XList (xs @ ys))
           | XStr t \<Rightarrow> Inr (XList (xs @ map (\<lambda>c. XStr [c]) t))
           | XDict d \<Rightarrow> Inr (XList (xs @ map (\<lambda>kv. XStr (map (\<lambda>ch. of_char ch) (fst kv))) d))
           | XNone \<Rightarrow> Inl TypeError)
      | _ \<Rightarrow> Inl AttributeError)"

text \<open>
  \<^verbatim>\<open>
  def fetch_xml_full(endpoint: str, chunk: int = 999) -> pd.DataFrame:
      base = f"http://openapi.seoul.go.kr:8088/{API_KEY}/xml/{endpoint}"
      rows, total = parse_xml(requests.get(f"{base}/1/1/").text)
      for start in range(2, total + 1, chunk):
          end = min(start + chunk - 1, total)
          add, _ = parse_xml(requests.get(f"{base}/{start}/{end}/").text)
          rows.extend(add)
      return pd.DataFrame(rows)
  \<close>
  The remote service is a function from the two bounds of a request to the decoded
  body of its answer. The requests that were sent are the effect of the function: it
  returns them, in order, beside its result.

  \<open>pd.DataFrame(rows)\<close>: \<open>None\<close> gives the empty table and a string is refused. What
  is made of a list depends on its first value. After a mapping, every value is read
  as a mapping of fields, each one record of the table; a value without \<open>keys\<close>
  (\<open>None\<close>, a string, a list) is an \<open>AttributeError\<close>. After a list, every value is
  read as a sequence whose items fill one row; \<open>None\<close> has no length, a
  \<open>TypeError\<close>. After \<open>None\<close> or a string, the values themselves fill one column.
  A mapping does not reach the call, since \<open>parse_xml\<close> wraps it and \<open>extend\<close>
  returns a list; pandas refuses a mapping of texts.
\<close>

type_synonym service = "int \<Rightarrow> int \<Rightarrow> error + envelope"

fun fetch_pages ::
  "service \<Rightarrow> int \<Rightarrow> int \<Rightarrow> int list \<Rightarrow> (int \<times> int) list \<Rightarrow> xval
     \<Rightarrow> (int \<times> int) list \<times> (error + xval)" where
  "fetch_pages svc chunk tot [] sent rows = (sent, Inr rows)"
| "fetch_pages svc chunk tot (start # starts) sent rows =
     (let end = min (start + chunk - 1) tot;
          sent' = sent @ [(start, end)]
      in case svc start end of
           Inl e \<Rightarrow> (sent', Inl e)
         | Inr p \<Rightarrow>
            (case parse_xml p of
               Inl e \<Rightarrow> (sent', Inl e)
             | Inr (add, _) \<Rightarrow>
                (case extend rows add of
                   Inl e \<Rightarrow> (sent', Inl e)
                 | Inr rows' \<Rightarrow> fetch_pages svc chunk tot starts sent' rows')))"

datatype frame =
    Records "(string \<times> xval) list list"
  | Sequences "xval list list"
  | Objects "xval list"

definition is_mapping :: "xval \<Rightarrow> bool" where
  "is_mapping v = (case v of XDict _ \<Rightarrow> True | _ \<Rightarrow> False)"

definition fields :: "xval \<Rightarrow> (string \<times> xval) list" where
  "fields v = (case v of XDict d \<Rightarrow> d | _ \<Rightarrow> [])"

definition items :: "xval \<Rightarrow> xval list" where
  "items v =
     (case v of
        XList ys \<Rightarrow> ys
      | XStr t \<Rightarrow> map (\<lambda>c. XStr [c]) t
      | XDict d \<Rightarrow> map (\<lambda>kv. XStr (map (\<lambda>ch. of_char ch) (fst kv))) d
      | XNone \<Rightarrow> [])"

definition DataFrame :: "xval \<Rightarrow> error + frame" where
  "DataFrame rows =
     (case rows of
        XNone \<Rightarrow> Inr (Records [])
      | XStr _ \<Rightarrow> Inl ValueError
      | XDict d \<Rightarrow> (if d = [] then Inr (Records []) else Inl ValueError)
      | XList vs \<Rightarrow>
         (case vs of
            [] \<Rightarrow> Inr (Records [])
          | x # xs \<Rightarrow>
             (case x of
                XDict _ \<Rightarrow>
                  (if list_all is_mapping xs then Inr (Records (map fields vs))
                   else Inl AttributeError)
              | XList _ \<Rightarrow>
                  (if list_all (\<lambda>v. v \<noteq> XNone) xs then Inr (Sequences (map items vs))
                   else Inl TypeError)
              | _ \<Rightarrow> Inr (Objects vs))))"

definition fetch_xml_full :: "service \<Rightarrow> int \<Rightarrow> (int \<times> int) list \<times> (error + frame)" where
  "fetch_xml_full svc chunk =
     (case svc 1 1 of
        Inl e \<Rightarrow> ([(1, 1)], Inl e)
      | Inr p \<Rightarrow>
         (case parse_xml p of
            Inl e \<Rightarrow> ([(1, 1)], Inl e)
          | Inr (rows, tot) \<Rightarrow>
             (case py_range 2 (tot + 1) chunk of
                Inl e \<Rightarrow> ([(1, 1)], Inl e)
              | Inr starts \<Rightarrow>
                 (case fetch_pages svc chunk tot starts [(1, 1)] rows of
                    (sent, Inl e) \<Rightarrow> (sent, Inl e)
                  | (sent, Inr rows') \<Rightarrow> (sent, DataFrame rows')))))"

text \<open>
  The rows of a data set \<open>db\<close> that lie in the range from \<open>s\<close> to \<open>e\<close>, both
  counted from one and both included.
\<close>

definition rows_in_range :: "'a list \<Rightarrow> int \<Rightarrow> int \<Rightarrow> 'a list" where
  "rows_in_range db s e = take (nat (e - s + 1)) (drop (nat (s - 1)) db)"

text \<open>The row numbers that a list of requests asks for, in the order asked.\<close>

definition requested :: "(int \<times> int) list \<Rightarrow> int list" where
  "requested sent = concat (map (\<lambda>(s, e). [s..e]) sent)"

text \<open>
  The \<open>n\<close> page starts \<open>a, a + c, ...\<close> end just beyond \<open>tot\<close>: the last of them
  is at most \<open>tot\<close>, the next one would not be.
\<close>

definition pages_end :: "int \<Rightarrow> int \<Rightarrow> int \<Rightarrow> nat \<Rightarrow> bool" where
  "pages_end tot c a n \<longleftrightarrow> tot < a + int n * c \<and> (n = 0 \<or> a + int (n - 1) * c \<le> tot)"

text \<open>
  The requests of a run that no exception cuts short, with \<open>tot\<close> the total that the
  first answer declares: the first request, and one request for each start that the
  loop's \<open>range\<close> yields.
\<close>

definition page_requests :: "int \<Rightarrow> int \<Rightarrow> (int \<times> int) list" where
  "page_requests tot chunk =
     (1, 1) # (case py_range 2 (tot + 1) chunk of
                 Inl _ \<Rightarrow> []
               | Inr starts \<Rightarrow> map (\<lambda>start. (start, min (start + chunk - 1) tot)) starts)"

section \<open>The presenter\<close>

text \<open>
  The length column is rewritten cell by cell with
  \<^verbatim>\<open>lambda v: f"{int(v)//1000} m" if str(v).isdigit() else "-"\<close>
\<close>

definition render_length :: "cell \<Rightarrow> error + pystr" where
  "render_length v =
     (if isdigit (str_cell v)
      then (case int_cell v of
              Inl e \<Rightarrow> Inl e
            | Inr n \<Rightarrow> Inr (str_int (n div 1000) @ [32, 109]))
      else Inr [45])"

text \<open>
  \<^verbatim>\<open>
  show_v = df_conv[df_conv["STATION_NAME"].isin(targets)]
  if show_v.empty:
      st.info(...)
  else:
      row = show_v.iloc[0]
      fmap = {"EL": ..., "WL": ..., "PARKING": ..., "BICYCLE": ..., "CIM": ...,
              "EXCHANGE": ..., "TRAIN": ..., "CULTURE": ..., "PLACE": ..., "FDROOM": ...}
      avail = [v for k,v in fmap.items() if row.get(k)=="Y"]
  \<close>
  The labels are Korean words, given by their code points; the first is the word for
  elevator. \<open>row.get(k)\<close> of a code the row does not have is \<open>None\<close> or NaN, and
  neither equals the string \<open>Y\<close> (code point 89).
\<close>

definition fmap :: "(string \<times> pystr) list" where
  "fmap =
    [(''EL'', [50648, 47532, 48288, 51060, 53552]),
     (''WL'', [55072, 52404, 50612, 47532, 54532, 53944]),
     (''PARKING'', [51452, 52264, 51109]),
     (''BICYCLE'', [51088, 51204, 44144, 48372, 44288, 49548]),
     (''CIM'', [47924, 51064, 48124, 50896, 48156, 44553, 44592]),
     (''EXCHANGE'', [54872, 51204, 49548]),
     (''TRAIN'', [50676, 52264, 47588, 54364]),
     (''CULTURE'', [47928, 54868, 44277, 44036]),
     (''PLACE'', [50976, 55092, 44277, 44036]),
     (''FDROOM'', [49688, 50976, 49892])]"

definition avail :: "row \<Rightarrow> pystr list" where
  "avail row = map snd (filter (\<lambda>kv. cell_at row (fst kv) = Str [89]) fmap)"

datatype amenity_view = Skipped | NoInfo | Available "pystr list"

definition amenities :: "dataframe \<Rightarrow> pystr list \<Rightarrow> amenity_view" where
  "amenities df_conv tgts =
     (if has_column df_conv ''STATION_NAME''
      then (case isin_rows df_conv ''STATION_NAME'' tgts of
              [] \<Rightarrow> NoInfo
            | row # _ \<Rightarrow> Available (avail row))
      else Skipped)"

section \<open>Properties of the normalizer\<close>

lemma norm_gangnam: "norm_name [44053, 45224, 40, 50, 54840, 49440, 41] = [44053, 45224]"
  by (simp add: norm_name_def replace_char_def strip_def is_space_def)

lemma norm_yeoksam: "norm_name [50669, 49340] = [49340]"
  by (simp add: norm_name_def replace_char_def strip_def is_space_def)

lemma lazy_dot_close_eq:
  "lazy_dot_close cs =
     (if RPAREN \<in> set cs \<and> LF \<notin> set (takeWhile (\<lambda>x. x \<noteq> RPAREN) cs)
      then Some (tl (dropWhile (\<lambda>x. x \<noteq> RPAREN) cs)) else None)"
  by (induction cs) auto

lemma no_lf_in_span_suffix: "no_lf_in_span (a @ b) \<Longrightarrow> no_lf_in_span b"
  by (induction a) auto

lemma after_close_suffix:
  "\<exists>a. cs = a @ tl (dropWhile P cs)"
proof -
  have "take 1 xs @ tl xs = xs" for xs :: "'a list"
    by (cases xs) simp_all
  then have "take 1 (dropWhile P cs) @ tl (dropWhile P cs) = dropWhile P cs" .
  then have "cs = (takeWhile P cs @ take 1 (dropWhile P cs)) @ tl (dropWhile P cs)"
    by simp
  then show ?thesis by blast
qed

lemma no_lf_in_span_after_close:
  "no_lf_in_span cs \<Longrightarrow> no_lf_in_span (tl (dropWhile (\<lambda>x. x \<noteq> RPAREN) cs))"
proof -
  assume a: "no_lf_in_span cs"
  obtain p where "cs = p @ tl (dropWhile (\<lambda>x. x \<noteq> RPAREN) cs)"
    using after_close_suffix by blast
  then show ?thesis using a no_lf_in_span_suffix by metis
qed

lemma re_sub_spec_spans: "no_lf_in_span s \<Longrightarrow> re_sub s = spec_delete_spans s"
proof (induction s rule: spec_delete_spans.induct)
  case 1
  then show ?case by simp
next
  case (2 c cs)
  have tail: "no_lf_in_span cs" using "2.prems" by simp
  show ?case
  proof (cases "c = LPAREN \<and> RPAREN \<in> set cs")
    case True
    let ?rest = "tl (dropWhile (\<lambda>x. x \<noteq> RPAREN) cs)"
    have "LF \<notin> set (takeWhile (\<lambda>x. x \<noteq> RPAREN) cs)" using True "2.prems" by simp
    then have l: "lazy_dot_close cs = Some ?rest" using True by (simp add: lazy_dot_close_eq)
    have "re_sub ?rest = spec_delete_spans ?rest"
      using "2.IH"(1) True no_lf_in_span_after_close[OF tail] by blast
    then show ?thesis using True l by simp
  next
    case False
    have "re_sub cs = spec_delete_spans cs" using "2.IH"(2) False tail by blast
    then show ?thesis using False by (auto simp: lazy_dot_close_eq)
  qed
qed

text \<open>What the scan leaves behind the first closing parenthesis is left in any case.\<close>

lemma re_sub_after_close:
  "RPAREN \<in> set cs \<Longrightarrow> \<exists>y. re_sub cs = y @ re_sub (tl (dropWhile (\<lambda>x. x \<noteq> RPAREN) cs))"
proof (induction cs rule: re_sub.induct)
  case 1
  then show ?case by simp
next
  case (2 c cs)
  show ?case
  proof (cases "c = RPAREN")
    case True
    then have "re_sub (c # cs) = [c] @ re_sub cs" by simp
    then show ?thesis using True by auto
  next
    case False
    then have in_cs: "RPAREN \<in> set cs" using "2.prems" by simp
    show ?thesis
    proof (cases "c = LPAREN \<and> lazy_dot_close cs \<noteq> None")
      case True
      then have "lazy_dot_close cs = Some (tl (dropWhile (\<lambda>x. x \<noteq> RPAREN) cs))"
        by (simp add: lazy_dot_close_eq split: if_splits)
      then have "re_sub (c # cs) = [] @ re_sub (tl (dropWhile (\<lambda>x. x \<noteq> RPAREN) cs))"
        using True by simp
      then show ?thesis using False by auto
    next
      case no: False
      then have "re_sub (c # cs) = c # re_sub cs" by (auto split: option.splits)
      moreover obtain y where "re_sub cs = y @ re_sub (tl (dropWhile (\<lambda>x. x \<noteq> RPAREN) cs))"
        using "2.IH"(1,3) no in_cs by (cases "c = LPAREN") auto
      ultimately have "re_sub (c # cs) = (c # y) @ re_sub (tl (dropWhile (\<lambda>x. x \<noteq> RPAREN) cs))"
        by simp
      then show ?thesis using False by auto
    qed
  qed
qed

lemma no_lf_in_span_prefix:
  "RPAREN \<notin> set pre \<Longrightarrow> LF \<notin> set pre \<Longrightarrow>
   no_lf_in_span (pre @ RPAREN # rest) = no_lf_in_span rest"
proof (induction pre)
  case Nil
  then show ?case by simp
next
  case (Cons p pre)
  have "\<And>x. x \<in> set pre \<Longrightarrow> x \<noteq> RPAREN" using Cons.prems(1) by auto
  then have "takeWhile (\<lambda>x. x \<noteq> RPAREN) (pre @ RPAREN # rest)
      = pre @ takeWhile (\<lambda>x. x \<noteq> RPAREN) (RPAREN # rest)"
    by (rule takeWhile_append2)
  then have "takeWhile (\<lambda>x. x \<noteq> RPAREN) (pre @ RPAREN # rest) = pre" by simp
  then show ?case using Cons by simp
qed

lemma split_at_close:
  "RPAREN \<in> set cs \<Longrightarrow>
   cs = takeWhile (\<lambda>x. x \<noteq> RPAREN) cs @ RPAREN # tl (dropWhile (\<lambda>x. x \<noteq> RPAREN) cs)"
proof -
  assume "RPAREN \<in> set cs"
  then have ne: "dropWhile (\<lambda>x. x \<noteq> RPAREN) cs \<noteq> []" by (simp add: dropWhile_eq_Nil_conv)
  then have "hd (dropWhile (\<lambda>x. x \<noteq> RPAREN) cs) = RPAREN"
    using hd_dropWhile[of "\<lambda>x. x \<noteq> RPAREN" cs] by simp
  then have "dropWhile (\<lambda>x. x \<noteq> RPAREN) cs = RPAREN # tl (dropWhile (\<lambda>x. x \<noteq> RPAREN) cs)"
    using ne by (metis list.collapse)
  then show ?thesis using takeWhile_dropWhile_id[of "\<lambda>x. x \<noteq> RPAREN" cs] by simp
qed

lemma parens_spans:
  "parens (spec_delete_spans s) \<le> parens (re_sub s)
   \<and> (no_lf_in_span s \<or> parens (spec_delete_spans s) < parens (re_sub s))"
proof (induction s rule: spec_delete_spans.induct)
  case 1
  then show ?case by simp
next
  case (2 c cs)
  let ?rest = "tl (dropWhile (\<lambda>x. x \<noteq> RPAREN) cs)"
  show ?case
  proof (cases "c = LPAREN \<and> RPAREN \<in> set cs")
    case True
    have ih: "parens (spec_delete_spans ?rest) \<le> parens (re_sub ?rest)"
        "no_lf_in_span ?rest \<or> parens (spec_delete_spans ?rest) < parens (re_sub ?rest)"
      using "2.IH"(1) True by blast+
    show ?thesis
    proof (cases "LF \<in> set (takeWhile (\<lambda>x. x \<noteq> RPAREN) cs)")
      case lf: True
      then have "re_sub (c # cs) = c # re_sub cs" using True by (simp add: lazy_dot_close_eq)
      moreover obtain y where "re_sub cs = y @ re_sub ?rest"
        using re_sub_after_close True by blast
      ultimately have "parens (re_sub (c # cs)) = Suc (parens y + parens (re_sub ?rest))"
        using True by (simp add: parens_def)
      then show ?thesis using True ih(1) by simp
    next
      case nolf: False
      then have "re_sub (c # cs) = re_sub ?rest" using True by (simp add: lazy_dot_close_eq)
      moreover have "no_lf_in_span ?rest \<Longrightarrow> no_lf_in_span (c # cs)"
      proof -
        assume r: "no_lf_in_span ?rest"
        have "RPAREN \<notin> set (takeWhile (\<lambda>x. x \<noteq> RPAREN) cs)"
          using set_takeWhileD by fastforce
        then have "no_lf_in_span (takeWhile (\<lambda>x. x \<noteq> RPAREN) cs @ RPAREN # ?rest)"
          using nolf r by (simp add: no_lf_in_span_prefix)
        then have "no_lf_in_span cs" using split_at_close True by simp
        then show ?thesis using nolf by simp
      qed
      ultimately show ?thesis using True ih by auto
    qed
  next
    case False
    then have "re_sub (c # cs) = c # re_sub cs" by (auto simp: lazy_dot_close_eq)
    then show ?thesis using "2.IH"(2) False by (auto simp: parens_def)
  qed
qed


lemma parens_strip: "parens (strip s) = parens s"
proof -
  have d: "count_list (dropWhile is_space xs) LPAREN = count_list xs LPAREN" for xs
    by (induction xs) (auto simp: is_space_def)
  show ?thesis
    unfolding parens_def strip_def
    by (simp only: count_list_rev d)
qed

lemma parens_filter: "c \<noteq> LPAREN \<Longrightarrow> parens (filter (\<lambda>x. x \<noteq> c) s) = parens s"
  unfolding parens_def by (induction s) auto

lemma parens_norm: "parens (norm_name s) = parens (re_sub s)"
  by (simp add: norm_name_def replace_char_def parens_strip parens_filter)

lemma parens_spec_norm: "parens (spec_norm s) = parens (spec_delete_spans s)"
  by (simp add: spec_norm_def parens_strip parens_filter)

lemma norm_spec_iff: "norm_name s = spec_norm s \<longleftrightarrow> no_lf_in_span s"
proof
  assume eq: "norm_name s = spec_norm s"
  show "no_lf_in_span s"
  proof (rule ccontr)
    assume "\<not> no_lf_in_span s"
    then have "parens (spec_delete_spans s) < parens (re_sub s)"
      using parens_spans[of s] by simp
    then have "parens (spec_norm s) < parens (norm_name s)"
      by (simp add: parens_norm parens_spec_norm)
    then show False using eq by simp
  qed
next
  assume "no_lf_in_span s"
  then show "norm_name s = spec_norm s"
    by (simp add: norm_name_def spec_norm_def replace_char_def re_sub_spec_spans)
qed

text \<open>
  C3 (as amended). The normalizer is what the specification describes, the spans
  from a \<open>(\<close> to the next \<open>)\<close> deleted, then every occurrence of the station
  character, then the blanks at both ends, on exactly the strings in which no line
  feed lies between a \<open>(\<close> and the next \<open>)\<close> behind it; on every other string the
  two differ. The name of Gangnam with its line number in parentheses becomes the
  bare name, and in the name Yeoksam the station character is deleted although it
  stands first.
\<close>

theorem norm_follows_spec:
  "(norm_name s = spec_norm s \<longleftrightarrow> no_lf_in_span s)
    \<and> norm_name [44053, 45224, 40, 50, 54840, 49440, 41] = [44053, 45224]
    \<and> norm_name [50669, 49340] = [49340]"
  using norm_spec_iff norm_gangnam norm_yeoksam by simp

theorem norm_follows_spec_witness:
  "no_lf_in_span [32, 49888, 52492, 10, 40, 50, 41, 50669, 10]
   \<and> norm_name [32, 49888, 52492, 10, 40, 50, 41, 50669, 10]
       = spec_norm [32, 49888, 52492, 10, 40, 50, 41, 50669, 10]
   \<and> spec_norm [32, 49888, 52492, 10, 40, 50, 41, 50669, 10] = [49888, 52492]"
proof -
  have h: "no_lf_in_span [32, 49888, 52492, 10, 40, 50, 41, 50669, 10]" by simp
  have "spec_norm [32, 49888, 52492, 10, 40, 50, 41, 50669, 10] = [49888, 52492]"
    by (simp add: spec_norm_def strip_def is_space_def)
  then show ?thesis
    using norm_follows_spec[of "[32, 49888, 52492, 10, 40, 50, 41, 50669, 10]"] h by simp
qed

text \<open>
  The pattern's \<open>.\<close> does not match a line feed, so a \<open>(\<close> whose next \<open>)\<close> comes
  after a line feed is kept, where the specification's words delete the span.
\<close>

theorem norm_line_feed_counterexample:
  "norm_name [40, 10, 41] = [40, 10, 41] \<and> spec_norm [40, 10, 41] = []
   \<and> norm_name [40, 10, 41] \<noteq> spec_norm [40, 10, 41]"
  by (simp add: norm_name_def spec_norm_def replace_char_def strip_def is_space_def)

subsection \<open>Idempotence\<close>

lemma lazy_None_re_sub: "lazy_dot_close cs = None \<Longrightarrow> lazy_dot_close (re_sub cs) = None"
proof (induction cs rule: re_sub.induct)
  case 1 then show ?case by simp
next
  case (2 c cs)
  then show ?case by (auto split: if_splits option.splits)
qed

lemma stable_re_sub: "stable (re_sub s)"
  by (induction s rule: re_sub.induct) (auto simp: lazy_None_re_sub split: option.splits)

lemma re_sub_stable: "stable s \<Longrightarrow> re_sub s = s"
  by (induction s) auto

lemma lazy_None_filter:
  "c \<noteq> RPAREN \<Longrightarrow> c \<noteq> LF \<Longrightarrow> lazy_dot_close cs = None
   \<Longrightarrow> lazy_dot_close (filter (\<lambda>x. x \<noteq> c) cs) = None"
  by (induction cs) (auto split: if_splits)

lemma stable_filter:
  "c \<noteq> RPAREN \<Longrightarrow> c \<noteq> LF \<Longrightarrow> stable s \<Longrightarrow> stable (filter (\<lambda>x. x \<noteq> c) s)"
  by (induction s) (auto simp: lazy_None_filter)

lemma stable_dropWhile: "stable s \<Longrightarrow> stable (dropWhile P s)"
  by (induction s) auto

lemma lazy_Some_append: "lazy_dot_close a = Some r \<Longrightarrow> lazy_dot_close (a @ b) = Some (r @ b)"
  by (induction a) (auto split: if_splits)

lemma stable_prefix: "stable (a @ b) \<Longrightarrow> stable a"
proof (induction a)
  case Nil then show ?case by simp
next
  case (Cons c a)
  then show ?case using lazy_Some_append[of a _ b] by (cases "lazy_dot_close a") auto
qed

lemma stable_rstrip: 
  assumes "stable s" shows "stable (rev (dropWhile P (rev s)))"
proof -
  have "s = rev (dropWhile P (rev s)) @ rev (takeWhile P (rev s))"
    by (metis rev_append rev_rev_ident takeWhile_dropWhile_id)
  then show ?thesis using assms stable_prefix by metis
qed

lemma stable_strip: "stable s \<Longrightarrow> stable (strip s)"
  unfolding strip_def by (simp add: stable_rstrip stable_dropWhile)

lemma dropWhile_idem: "dropWhile P (dropWhile P xs) = dropWhile P xs"
  by (induction xs) auto

lemma lstrip_rstrip:
  assumes "dropWhile P t = t"
  shows "dropWhile P (rev (dropWhile P (rev t))) = rev (dropWhile P (rev t))"
proof (cases t)
  case Nil
  then show ?thesis by simp
next
  case (Cons x xs)
  then have "\<not> P x" using assms hd_dropWhile[of P t] by simp
  then show ?thesis using Cons by (simp add: dropWhile_append)
qed

lemma lstrip_strip: "dropWhile is_space (strip s) = strip s"
  unfolding strip_def by (rule lstrip_rstrip) (rule dropWhile_idem)

lemma strip_idem: "strip (strip s) = strip s"
proof -
  have "strip (strip s) = rev (dropWhile is_space (rev (strip s)))"
    unfolding strip_def[of "strip s"] by (simp add: lstrip_strip)
  also have "\<dots> = strip s"
    by (simp add: strip_def dropWhile_idem)
  finally show ?thesis .
qed

lemma set_strip: "set (strip s) \<subseteq> set s"
  unfolding strip_def by (auto dest!: set_dropWhileD)

lemma stable_norm: "stable (norm_name s)"
  unfolding norm_name_def replace_char_def
  by (intro stable_strip stable_filter stable_re_sub) simp_all

lemma no_yeok_norm: "YEOK \<notin> set (norm_name s)"
  unfolding norm_name_def replace_char_def using set_strip by fastforce

text \<open>
  C4. Normalizing twice gives the same string as normalizing once.
\<close>

theorem norm_idempotent: "norm_name (norm_name s) = norm_name s"
proof -
  let ?n = "norm_name s"
  have "re_sub ?n = ?n" by (rule re_sub_stable) (rule stable_norm)
  moreover have "filter (\<lambda>x. x \<noteq> YEOK) ?n = ?n"
    using no_yeok_norm[of s] by (auto simp: filter_id_conv)
  moreover have "strip ?n = ?n"
    unfolding norm_name_def by (rule strip_idem)
  ultimately show ?thesis
    unfolding norm_name_def[of "norm_name s"] replace_char_def by simp
qed

theorem norm_idempotent_witness:
  "norm_name (norm_name [32, 40, 10, 40, 97, 41, 50669, 32]) = norm_name [32, 40, 10, 40, 97, 41, 50669, 32]
   \<and> norm_name [32, 40, 10, 40, 97, 41, 50669, 32] = [40]"
  using norm_idempotent[of "[32, 40, 10, 40, 97, 41, 50669, 32]"]
  by (simp add: norm_name_def replace_char_def strip_def is_space_def)


section \<open>Properties of the name map\<close>

lemma map_of_setdefault_append:
  "map_of (setdefault_append m k r) k' =
     (if k' = k then Some (case map_of m k of None \<Rightarrow> [r] | Some v \<Rightarrow> v @ [r])
      else map_of m k')"
proof (cases "k \<in> fst ` set m")
  case True
  have "map_of (map (\<lambda>(a, v). if a = k then (a, v @ [r]) else (a, v)) m) k' =
        (if k' = k then map_option (\<lambda>v. v @ [r]) (map_of m k) else map_of m k')"
    by (induction m) auto
  moreover obtain v where "map_of m k = Some v"
    using True by (metis domD dom_map_of_conv_image_fst)
  ultimately show ?thesis using True by (simp add: setdefault_append_def)
next
  case False
  then have "map_of m k = None" by (simp add: map_of_eq_None_iff)
  then show ?thesis using False
    by (auto simp: setdefault_append_def map_add_def split: option.splits)
qed

lemma keys_setdefault_append:
  "map fst (setdefault_append m k r) = (if k \<in> fst ` set m then map fst m else map fst m @ [k])"
proof -
  have "map fst (map (\<lambda>(a, v). if a = k then (a, v @ [r]) else (a, v)) m) = map fst m"
    by (induction m) auto
  then show ?thesis by (simp add: setdefault_append_def)
qed

lemma distinct_keys_setdefault_append:
  "distinct (map fst m) \<Longrightarrow> distinct (map fst (setdefault_append m k r))"
  by (simp add: keys_setdefault_append)

lemma append_at_absent_key:
  "k \<notin> fst ` set m \<Longrightarrow> map (\<lambda>(a, v). if a = k then (a, v @ [r]) else (a, v)) m = m"
  by (induction m) auto

lemma count_append_at_key:
  "distinct (map fst m) \<Longrightarrow> k \<in> fst ` set m \<Longrightarrow>
   count_list (concat (map snd (map (\<lambda>(a, v). if a = k then (a, v @ [r]) else (a, v)) m))) x =
     count_list (concat (map snd m)) x + (if x = r then 1 else 0)"
proof (induction m)
  case Nil
  then show ?case by simp
next
  case (Cons e m)
  obtain a v where e: "e = (a, v)" by (cases e)
  show ?case
  proof (cases "a = k")
    case True
    then have "k \<notin> fst ` set m" using Cons.prems(1) e by auto
    then show ?thesis using True e by (simp add: append_at_absent_key)
  next
    case False
    then have "k \<in> fst ` set m" using Cons.prems(2) e by auto
    then show ?thesis using Cons.IH Cons.prems(1) False e by simp
  qed
qed

lemma count_setdefault_append:
  "distinct (map fst m) \<Longrightarrow>
   count_list (concat (map snd (setdefault_append m k r))) x =
     count_list (concat (map snd m)) x + (if x = r then 1 else 0)"
proof (cases "k \<in> fst ` set m")
  case True
  assume "distinct (map fst m)"
  then show ?thesis
    unfolding setdefault_append_def using True count_append_at_key[of m k r x]
    by (simp only: if_True)
next
  case False
  then show ?thesis by (simp add: setdefault_append_def)
qed

text \<open>The second loop of \<open>build_map\<close>, from any map it has reached.\<close>

lemma fold_keys_distinct:
  "distinct (map fst m) \<Longrightarrow>
   distinct (map fst (fold (\<lambda>r n2r. setdefault_append n2r (f r) r) rs m))"
  by (induction rs arbitrary: m) (simp_all add: distinct_keys_setdefault_append)

lemma fold_map_of:
  "map_of (fold (\<lambda>r n2r. setdefault_append n2r (f r) r) rs m) k =
     (case map_of m k of
        Some v \<Rightarrow> Some (v @ filter (\<lambda>r. f r = k) rs)
      | None \<Rightarrow> (if filter (\<lambda>r. f r = k) rs = [] then None
                 else Some (filter (\<lambda>r. f r = k) rs)))"
  by (induction rs arbitrary: m)
     (auto simp: map_of_setdefault_append split: option.splits)

lemma fold_count:
  "distinct (map fst m) \<Longrightarrow>
   count_list (concat (map snd (fold (\<lambda>r n2r. setdefault_append n2r (f r) r) rs m))) x =
     count_list (concat (map snd m)) x + count_list rs x"
  by (induction rs arbitrary: m)
     (simp_all add: count_setdefault_append distinct_keys_setdefault_append)

lemma build_map_lookup:
  "map_of (build_map order dfs) k =
     (if filter (\<lambda>r. norm_name r = k) (order (raw_names dfs)) = [] then None
      else Some (filter (\<lambda>r. norm_name r = k) (order (raw_names dfs))))"
  by (simp add: build_map_def fold_map_of)

lemma build_map_keys_distinct: "distinct (map fst (build_map order dfs))"
  by (simp add: build_map_def fold_keys_distinct)

lemma build_map_entry:
  "(k, v) \<in> set (build_map order dfs) \<Longrightarrow> map_of (build_map order dfs) k = Some v"
  by (simp add: build_map_keys_distinct)

lemma build_map_count:
  "count_list (concat (map snd (build_map order dfs))) x = count_list (order (raw_names dfs)) x"
  by (simp add: build_map_def fold_count)

text \<open>The first loop: what ends up in \<open>raw\<close>.\<close>

lemma str_values_set: "set (str_values cells) = {s. Str s \<in> set cells}"
  by (induction cells rule: str_values.induct) auto

lemma cell_at_Str: "Str s = cell_at row col \<longleftrightarrow> row col = Some (Str s)"
  by (auto simp: cell_at_def split: option.splits)

lemma column_names:
  "set (str_values (dropna (column df col))) = {s. \<exists>row \<in> set df. row col = Some (Str s)}"
  by (auto simp: str_values_set dropna_def column_def image_iff cell_at_Str)

lemma has_column_iff: "has_column df col \<longleftrightarrow> (\<exists>row \<in> set df. row col \<noteq> None)"
  by (simp add: has_column_def list_ex_iff)

lemma fold_columns:
  "fold (\<lambda>col raw. if has_column df col
                     then raw \<union> set (str_values (dropna (column df col))) else raw) cols raw0 =
   raw0 \<union> {s. \<exists>col \<in> set cols. \<exists>row \<in> set df. row col = Some (Str s)}"
proof (induction cols arbitrary: raw0)
  case Nil
  then show ?case by simp
next
  case (Cons c cols)
  have "\<not> has_column df c \<Longrightarrow> {s. \<exists>row \<in> set df. row c = Some (Str s)} = {}"
    by (auto simp: has_column_iff)
  then show ?case
    by (cases "has_column df c") (auto simp: Cons.IH column_names)
qed

lemma fold_tables:
  "fold (\<lambda>df raw. fold (\<lambda>col raw. if has_column df col
                     then raw \<union> set (str_values (dropna (column df col))) else raw) cols raw)
        dfs raw0 =
   raw0 \<union> {s. \<exists>df \<in> set dfs. \<exists>col \<in> set cols. \<exists>row \<in> set df. row col = Some (Str s)}"
  by (induction dfs arbitrary: raw0) (auto simp: fold_columns)

lemma raw_names_iff:
  "s \<in> raw_names dfs \<longleftrightarrow>
     (\<exists>df \<in> set dfs. \<exists>col \<in> set name_columns. \<exists>row \<in> set df. row col = Some (Str s))"
  by (simp add: raw_names_def fold_tables)

lemma count_distinct: "distinct xs \<Longrightarrow> count_list xs x = (if x \<in> set xs then 1 else 0)"
  by (induction xs) auto

lemma count_iteration:
  "iteration order S \<Longrightarrow> count_list (order S) x = (if x \<in> S then 1 else 0)"
  unfolding iteration_def using count_distinct by metis


text \<open>
  C5. Whatever the tables and the order in which the set of raw names is iterated:
  a raw name \<open>r\<close> found in one of the three recognized name columns of one of the
  tables is in the list stored under the key \<open>norm(r)\<close>, every entry of the map whose
  list holds \<open>r\<close> has that key, and no key has two entries.
\<close>

theorem name_map_invariant:
  assumes "iteration order (raw_names dfs)"
    and "df \<in> set dfs" and "col \<in> set name_columns"
    and "row \<in> set df" and "row col = Some (Str r)"
  shows "(\<exists>v. map_of (build_map order dfs) (norm_name r) = Some v \<and> r \<in> set v)
    \<and> (\<forall>k v. (k, v) \<in> set (build_map order dfs) \<and> r \<in> set v \<longrightarrow> k = norm_name r)
    \<and> distinct (map fst (build_map order dfs))"
proof -
  have "r \<in> raw_names dfs" using assms(2-5) raw_names_iff by blast
  then have mem: "r \<in> set (order (raw_names dfs))"
    using assms(1) by (simp add: iteration_def)
  then have "r \<in> set (filter (\<lambda>x. norm_name x = norm_name r) (order (raw_names dfs)))"
    by simp
  moreover from this
  have "filter (\<lambda>x. norm_name x = norm_name r) (order (raw_names dfs)) \<noteq> []"
    by fastforce
  ultimately
  have one: "\<exists>v. map_of (build_map order dfs) (norm_name r) = Some v \<and> r \<in> set v"
    unfolding build_map_lookup by simp
  have "k = norm_name r" if "(k, v) \<in> set (build_map order dfs)" and "r \<in> set v" for k v
  proof -
    have "map_of (build_map order dfs) k = Some v" using that(1) by (rule build_map_entry)
    then have "v = filter (\<lambda>x. norm_name x = k) (order (raw_names dfs))"
      by (simp add: build_map_lookup split: if_splits)
    then show ?thesis using that(2) by simp
  qed
  then show ?thesis using one build_map_keys_distinct by blast
qed

theorem name_map_invariant_witness:
  "iteration (\<lambda>_. [[44053, 45224, 40, 50, 41], [44053, 45224]])
     (raw_names [[[''STN_NM'' \<mapsto> Str [44053, 45224]]],
                 [[''STATION_NAME'' \<mapsto> Str [44053, 45224, 40, 50, 41]],
                  [''STATION_NAME'' \<mapsto> Str [44053, 45224]]]])
   \<and> (\<exists>v. map_of (build_map (\<lambda>_. [[44053, 45224, 40, 50, 41], [44053, 45224]])
         [[[''STN_NM'' \<mapsto> Str [44053, 45224]]],
          [[''STATION_NAME'' \<mapsto> Str [44053, 45224, 40, 50, 41]],
           [''STATION_NAME'' \<mapsto> Str [44053, 45224]]]]) (norm_name [44053, 45224, 40, 50, 41])
       = Some v \<and> [44053, 45224, 40, 50, 41] \<in> set v)"
proof -
  let ?order = "\<lambda>_::pystr set. [[44053, 45224, 40, 50, 41], [44053, 45224::nat]]"
  let ?row = "[''STATION_NAME'' \<mapsto> Str [44053, 45224, 40, 50, 41]]"
  let ?df = "[?row, [''STATION_NAME'' \<mapsto> Str [44053, 45224]]]"
  let ?dfs = "[[[''STN_NM'' \<mapsto> Str [44053, 45224]]], ?df]"
  have raw: "raw_names ?dfs = {[44053, 45224, 40, 50, 41], [44053, 45224]}"
    by (simp add: raw_names_def name_columns_def has_column_def column_def cell_at_def
        dropna_def insert_commute)
  have h1: "iteration ?order (raw_names ?dfs)"
    unfolding raw by (simp add: iteration_def)
  have h2: "?df \<in> set ?dfs" by simp
  have h3: "''STATION_NAME'' \<in> set name_columns" by (simp add: name_columns_def)
  have h4: "?row \<in> set ?df" by simp
  have h5: "?row ''STATION_NAME'' = Some (Str [44053, 45224, 40, 50, 41])" by simp
  show ?thesis
    using name_map_invariant[OF h1 h2 h3 h4 h5] h1 by blast
qed

section \<open>Properties of the resolver\<close>

lemma py_max_mem: "py_max x xs \<in> set (x # xs)"
  unfolding py_max_def by (induction xs arbitrary: x) auto

lemma py_max_ge_first: "x \<le> py_max x xs"
  unfolding py_max_def
proof (induction xs arbitrary: x)
  case Nil
  then show ?case by simp
next
  case (Cons a xs)
  have "(if a > x then a else x) \<le> foldl (\<lambda>m y. if y > m then y else m) (if a > x then a else x) xs"
    by (rule Cons.IH)
  then show ?case by (auto intro: order_trans less_imp_le)
qed

lemma py_max_ge_rest: "y \<in> set xs \<Longrightarrow> y \<le> py_max x xs"
proof (induction xs arbitrary: x)
  case Nil
  then show ?case by simp
next
  case (Cons a xs)
  have step: "py_max x (a # xs) = py_max (if a > x then a else x) xs"
    by (simp add: py_max_def)
  show ?case
  proof (cases "y = a")
    case True
    have "a \<le> (if a > x then a else x)" by auto
    then show ?thesis
      using True step py_max_ge_first[of "if a > x then a else x" xs] by (metis order_trans)
  next
    case False
    then show ?thesis using Cons step by simp
  qed
qed

lemma py_max_ge: "y \<in> set (x # xs) \<Longrightarrow> y \<le> py_max x xs"
  using py_max_ge_first py_max_ge_rest by auto

lemma get_close_matches_none:
  "\<forall>k \<in> set ps. ratio k w < c \<Longrightarrow> get_close_matches ratio w ps c = []"
  by (simp add: get_close_matches_def nlargest1_def filter_empty_conv not_le)

lemma get_close_matches_best:
  assumes "\<exists>k \<in> set ps. c \<le> ratio k w"
  shows "\<exists>k. get_close_matches ratio w ps c = [k] \<and> k \<in> set ps \<and> c \<le> ratio k w
           \<and> (\<forall>k' \<in> set ps. ratio k' w \<le> ratio k w)
           \<and> (\<forall>k' \<in> set ps. ratio k' w = ratio k w \<longrightarrow> k' \<le> k)"
proof -
  let ?cand = "filter (\<lambda>x. c \<le> ratio x w) ps"
  let ?scored = "map (\<lambda>x. (ratio x w, x)) ?cand"
  have "?scored \<noteq> []" using assms by (auto simp: filter_empty_conv)
  then obtain p ps' where sc: "?scored = p # ps'" by (cases ?scored) auto
  let ?m = "py_max p ps'"
  have res: "get_close_matches ratio w ps c = [snd ?m]"
    by (simp add: get_close_matches_def nlargest1_def sc)
  have "?m \<in> set ?scored" using py_max_mem[of p ps'] sc by simp
  then obtain k where k: "?m = (ratio k w, k)" "k \<in> set ps" "c \<le> ratio k w" by auto
  have ge: "(ratio k' w, k') \<le> (ratio k w, k)" if "k' \<in> set ps" "c \<le> ratio k' w" for k'
  proof -
    have "(ratio k' w, k') \<in> set (p # ps')" using that sc[symmetric] by simp
    then show ?thesis using py_max_ge k(1) by metis
  qed
  have "ratio k' w \<le> ratio k w" if "k' \<in> set ps" for k'
  proof (cases "c \<le> ratio k' w")
    case True
    then show ?thesis using ge[OF that] by (auto simp: less_eq_prod_def)
  next
    case False
    then show ?thesis using k(3) by simp
  qed
  moreover have "k' \<le> k" if "k' \<in> set ps" "ratio k' w = ratio k w" for k'
    using ge[OF that(1)] that(2) k(3) by (auto simp: less_eq_prod_def)
  ultimately show ?thesis using res k by auto
qed

lemma get_close_matches_cases:
  "get_close_matches ratio w ps c = [] \<or> (\<exists>k \<in> set ps. get_close_matches ratio w ps c = [k])"
proof (cases "\<exists>k \<in> set ps. c \<le> ratio k w")
  case True
  then show ?thesis
    using get_close_matches_best[where ps = ps and c = c and ratio = ratio and w = w] by blast
next
  case False
  then show ?thesis using get_close_matches_none[of ps ratio w c] by (simp add: not_le)
qed

text \<open>
  C1. When the normalized query is a key of the name map, the resolver returns the
  list stored under that key, and nothing else: in particular, with the raw name
  Hapjeong (54633, 51221) stored under the key Hapjeong, the query Hapjeong returns a
  list that holds it.
\<close>

theorem exact_match:
  "(map_of nmap (norm_name query) = Some v \<longrightarrow> targets ratio nmap query = v)
   \<and> (map_of nmap [54633, 51221] = Some w \<and> [54633, 51221] \<in> set w
        \<longrightarrow> [54633, 51221] \<in> set (targets ratio nmap [54633, 51221]))"
proof -
  have "norm_name [54633, 51221] = [54633, 51221]"
    by (simp add: norm_name_def replace_char_def strip_def is_space_def)
  then show ?thesis by (simp add: targets_def)
qed

theorem exact_match_witness:
  "map_of ([([54633, 51221], [[54633, 51221, 50669], [54633, 51221]])] :: name_map)
       (norm_name [54633, 51221, 50669])
     = Some [[54633, 51221, 50669], [54633, 51221]]
   \<and> targets (\<lambda>x w. 0) [([54633, 51221], [[54633, 51221, 50669], [54633, 51221]])] [54633, 51221, 50669]
     = [[54633, 51221, 50669], [54633, 51221]]
   \<and> [54633, 51221] \<in> set (targets (\<lambda>x w. 0)
        [([54633, 51221], [[54633, 51221, 50669], [54633, 51221]])] [54633, 51221])"
proof -
  have n: "norm_name [54633, 51221, 50669] = [54633, 51221]"
    by (simp add: norm_name_def replace_char_def strip_def is_space_def)
  show ?thesis
    using exact_match[of "[([54633, 51221], [[54633, 51221, 50669], [54633, 51221]])]"
        "[54633, 51221, 50669]" "[[54633, 51221, 50669], [54633, 51221]]" "\<lambda>x w. 0"
        "[[54633, 51221, 50669], [54633, 51221]]"]
    by (simp add: n)
qed

text \<open>
  C2. When the normalized query is not a key: if some key reaches the ratio 0.4 with
  it, the resolver returns the list of a key that reaches 0.4 and whose ratio no other
  key exceeds (among keys of equal ratio, the greatest string); if no key reaches 0.4,
  it returns the empty list. This holds for every similarity ratio.
\<close>

theorem fuzzy_fallback:
  assumes "map_of nmap (norm_name query) = None"
  shows "if \<exists>k \<in> fst ` set nmap. 4 / 10 \<le> ratio k (norm_name query)
         then \<exists>k v. map_of nmap k = Some v \<and> targets ratio nmap query = v
                \<and> 4 / 10 \<le> ratio k (norm_name query)
                \<and> (\<forall>k' \<in> fst ` set nmap. ratio k' (norm_name query) \<le> ratio k (norm_name query))
                \<and> (\<forall>k' \<in> fst ` set nmap.
                      ratio k' (norm_name query) = ratio k (norm_name query) \<longrightarrow> k' \<le> k)
         else targets ratio nmap query = []"
proof (cases "\<exists>k \<in> fst ` set nmap. 4 / 10 \<le> ratio k (norm_name query)")
  case True
  then have "\<exists>k \<in> set (map fst nmap). 4 / 10 \<le> ratio k (norm_name query)" by simp
  then obtain k where k: "get_close_matches ratio (norm_name query) (map fst nmap) (4 / 10) = [k]"
      "k \<in> set (map fst nmap)" "4 / 10 \<le> ratio k (norm_name query)"
      "\<forall>k' \<in> set (map fst nmap). ratio k' (norm_name query) \<le> ratio k (norm_name query)"
      "\<forall>k' \<in> set (map fst nmap). ratio k' (norm_name query) = ratio k (norm_name query) \<longrightarrow> k' \<le> k"
    using get_close_matches_best[where ps = "map fst nmap" and c = "4 / 10" and ratio = ratio
        and w = "norm_name query"]
    by blast
  obtain v where v: "map_of nmap k = Some v"
    using k(2) by (metis domD dom_map_of_conv_image_fst set_map)
  have "targets ratio nmap query = v"
    using assms k(1) v by (simp add: targets_def)
  then show ?thesis using True v k(3,4,5) by auto
next
  case False
  then have "\<forall>k \<in> set (map fst nmap). ratio k (norm_name query) < 4 / 10"
    by (auto simp: not_le)
  then have "get_close_matches ratio (norm_name query) (map fst nmap) (4 / 10) = []"
    by (rule get_close_matches_none)
  then show ?thesis using False assms by (simp add: targets_def)
qed

theorem fuzzy_fallback_witness:
  "map_of ([([54633, 51221], [[54633, 51221]]), ([44053, 45224], [[44053, 45224, 50669]])]
        :: name_map) (norm_name [54633, 51222]) = None
   \<and> targets (\<lambda>x w. if x = [54633, 51221] then 1 / 2 else 1 / 10)
        [([54633, 51221], [[54633, 51221]]), ([44053, 45224], [[44053, 45224, 50669]])]
        [54633, 51222] = [[54633, 51221]]
   \<and> targets (\<lambda>x w. 1 / 10)
        [([54633, 51221], [[54633, 51221]]), ([44053, 45224], [[44053, 45224, 50669]])]
        [54633, 51222] = []"
proof -
  let ?nmap = "[([54633, 51221], [[54633, 51221]]), ([44053, 45224], [[44053, 45224, 50669]])]
    :: name_map"
  have n: "norm_name [54633, 51222] = [54633, 51222]"
    by (simp add: norm_name_def replace_char_def strip_def is_space_def)
  have h: "map_of ?nmap (norm_name [54633, 51222]) = None" by (simp add: n)
  have "targets (\<lambda>x w. if x = [54633, 51221] then 1 / 2 else 1 / 10) ?nmap [54633, 51222]
      = [[54633, 51221]]"
    using fuzzy_fallback[OF h, where ratio = "\<lambda>x w. if x = [54633, 51221] then 1 / 2 else 1 / 10"]
    by (simp add: n targets_def get_close_matches_def nlargest1_def py_max_def)
  moreover have "targets (\<lambda>x w. 1 / 10) ?nmap [54633, 51222] = []"
    using fuzzy_fallback[OF h, where ratio = "\<lambda>x w. 1 / 10"] by simp
  ultimately show ?thesis using h by blast
qed

text \<open>
  C10. In the map that \<open>build_map\<close> returns no list is empty, and across all
  lists every raw name of the tables occurs exactly once and nothing else occurs,
  however many tables hold the name. Hence the resolver, when the normalized query
  is a key or the fuzzy search returns a key, returns a list that is not empty.
\<close>

theorem name_map_lists:
  assumes "iteration order (raw_names dfs)"
  shows "(\<forall>(k, v) \<in> set (build_map order dfs). v \<noteq> [])
    \<and> (\<forall>r. count_list (concat (map snd (build_map order dfs))) r
            = (if r \<in> raw_names dfs then 1 else 0))
    \<and> (map_of (build_map order dfs) (norm_name query) \<noteq> None
          \<or> get_close_matches ratio (norm_name query) (map fst (build_map order dfs)) (4 / 10) \<noteq> []
        \<longrightarrow> targets ratio (build_map order dfs) query \<noteq> [])"
proof -
  let ?m = "build_map order dfs"
  have nonempty: "v \<noteq> []" if "map_of ?m k = Some v" for k v
    using that by (simp add: build_map_lookup split: if_splits)
  then have lists: "\<forall>(k, v) \<in> set ?m. v \<noteq> []"
    using build_map_entry by blast
  have once: "\<forall>r. count_list (concat (map snd ?m)) r = (if r \<in> raw_names dfs then 1 else 0)"
    using assms by (simp add: build_map_count count_iteration)
  have "targets ratio ?m query \<noteq> []"
    if sel: "map_of ?m (norm_name query) \<noteq> None
          \<or> get_close_matches ratio (norm_name query) (map fst ?m) (4 / 10) \<noteq> []"
  proof (cases "map_of ?m (norm_name query)")
    case (Some v)
    then show ?thesis using nonempty[OF Some] by (simp add: targets_def)
  next
    case None
    then have "get_close_matches ratio (norm_name query) (map fst ?m) (4 / 10) \<noteq> []"
      using sel by simp
    then obtain k where k: "k \<in> set (map fst ?m)"
        "get_close_matches ratio (norm_name query) (map fst ?m) (4 / 10) = [k]"
      using get_close_matches_cases[of ratio "norm_name query" "map fst ?m" "4 / 10"] by blast
    then obtain v where v: "map_of ?m k = Some v"
      by (metis domD dom_map_of_conv_image_fst set_map)
    then show ?thesis using None k(2) nonempty[OF v] by (simp add: targets_def)
  qed
  then show ?thesis using lists once by blast
qed

theorem name_map_lists_witness:
  "iteration (\<lambda>_. [[44053, 45224], [44053, 45224, 50669]])
     (raw_names [[[''STN_NM'' \<mapsto> Str [44053, 45224]]],
                 [[''SBWY_STNS_NM'' \<mapsto> Str [44053, 45224, 50669]],
                  [''SBWY_STNS_NM'' \<mapsto> Str [44053, 45224]]]])
   \<and> count_list (concat (map snd (build_map (\<lambda>_. [[44053, 45224], [44053, 45224, 50669]])
         [[[''STN_NM'' \<mapsto> Str [44053, 45224]]],
          [[''SBWY_STNS_NM'' \<mapsto> Str [44053, 45224, 50669]],
           [''SBWY_STNS_NM'' \<mapsto> Str [44053, 45224]]]]))) [44053, 45224] = 1"
proof -
  let ?order = "\<lambda>_::pystr set. [[44053, 45224], [44053, 45224, 50669::nat]]"
  let ?dfs = "[[[''STN_NM'' \<mapsto> Str [44053, 45224]]],
               [[''SBWY_STNS_NM'' \<mapsto> Str [44053, 45224, 50669]],
                [''SBWY_STNS_NM'' \<mapsto> Str [44053, 45224]]]]"
  have raw: "raw_names ?dfs = {[44053, 45224], [44053, 45224, 50669]}"
    by (simp add: raw_names_def name_columns_def has_column_def column_def cell_at_def
        dropna_def insert_commute)
  have h: "iteration ?order (raw_names ?dfs)"
    unfolding raw by (simp add: iteration_def)
  have "[44053, 45224] \<in> raw_names ?dfs" unfolding raw by simp
  then show ?thesis
    using name_map_lists[OF h] h by presburger
qed


section \<open>Properties of the fetcher\<close>

lemma py_range_up:
  "0 < step \<Longrightarrow> py_range start stop step =
     Inr (map (\<lambda>i. start + int i * step) [0..<nat ((stop - start + step - 1) div step)])"
  by (simp add: py_range_def)

lemma map_upt_shift:
  "map (\<lambda>i. a + int i * c) [0..<Suc n] = a # map (\<lambda>i. (a + c) + int i * c) [0..<n]"
proof -
  have "[0..<Suc n] = 0 # map Suc [0..<n]"
    by (simp add: upt_conv_Cons map_Suc_upt del: upt_Suc)
  then show ?thesis by (simp add: algebra_simps del: upt_Suc)
qed

lemma pages_end_step:
  "0 < c \<Longrightarrow> pages_end tot c a (Suc n) \<Longrightarrow> pages_end tot c (a + c) n \<and> a \<le> tot"
proof -
  assume c: "0 < c" and p: "pages_end tot c a (Suc n)"
  have le: "a + int n * c \<le> tot" using p by (simp add: pages_end_def)
  have "0 \<le> int n * c" using c by simp
  then have "a \<le> tot" using le by linarith
  moreover have "pages_end tot c (a + c) n"
    using p le by (cases n) (auto simp: pages_end_def algebra_simps)
  ultimately show ?thesis by simp
qed

lemma pages_end_first:
  assumes "0 < c"
  shows "pages_end tot c 2 (nat ((tot + 1 - 2 + c - 1) div c))"
proof -
  define q where "q = (tot + 1 - 2 + c - 1) div c"
  define r where "r = (tot + 1 - 2 + c - 1) mod c"
  have eq: "tot + c - 2 = c * q + r"
    unfolding q_def r_def by (simp add: algebra_simps)
  have r: "0 \<le> r" "r < c" using assms by (simp_all add: r_def)
  show ?thesis
  proof (cases "q \<le> 0")
    case True
    then have "c * q \<le> 0" using assms by (simp add: mult_le_0_iff)
    then have "tot < 2" using eq r by linarith
    moreover have "nat q = 0" using True by simp
    ultimately show ?thesis unfolding q_def[symmetric] by (simp add: pages_end_def)
  next
    case False
    then have q: "int (nat q) = q" "nat q \<noteq> 0" "int (nat q - 1) = q - 1" by simp_all
    have a: "tot < 2 + c * q" using eq r by linarith
    have b: "2 + c * q - c \<le> tot" using eq r by linarith
    have "tot < 2 + q * c" using a by (simp add: mult.commute)
    moreover have "2 + (q - 1) * c \<le> tot" using b by (simp add: algebra_simps)
    ultimately show ?thesis unfolding q_def[symmetric] using q by (simp add: pages_end_def)
  qed
qed

text \<open>A service that answers every request with the rows of its range.\<close>

lemma extend_lists: "extend (XList xs) (XList ys) = Inr (XList (xs @ ys))"
  by (simp add: extend_def)

lemma take_rows_in_range:
  assumes "1 \<le> a" and "a - 1 \<le> e"
  shows "take (nat (a - 1)) db @ rows_in_range db a e = take (nat e) db"
proof -
  have "nat e = nat (a - 1) + nat (e - a + 1)" using assms by linarith
  then show ?thesis by (simp add: rows_in_range_def take_add)
qed

lemma fetch_pages_ideal:
  assumes c: "1 \<le> chunk"
    and svc: "\<forall>s e. \<exists>p. svc s e = Inr p
                \<and> parse_xml p = Inr (XList (rows_in_range db s e), int (length db))"
  shows "2 \<le> a \<Longrightarrow> pages_end (int (length db)) chunk a n \<Longrightarrow>
     fetch_pages svc chunk (int (length db)) (map (\<lambda>i. a + int i * chunk) [0..<n]) sent
       (XList (take (nat (a - 1)) db))
     = (sent @ map (\<lambda>start. (start, min (start + chunk - 1) (int (length db))))
                 (map (\<lambda>i. a + int i * chunk) [0..<n]),
        Inr (XList db))"
proof (induction n arbitrary: a sent)
  case 0
  then have "int (length db) < a" by (simp add: pages_end_def)
  then have "take (nat (a - 1)) db = db" by simp
  then show ?case by simp
next
  case (Suc n)
  let ?tot = "int (length db)"
  let ?e = "min (a + chunk - 1) ?tot"
  have step: "pages_end ?tot chunk (a + chunk) n" "a \<le> ?tot"
    using pages_end_step[of chunk ?tot a n] c Suc.prems(2) by simp_all
  obtain p where p: "svc a ?e = Inr p"
      "parse_xml p = Inr (XList (rows_in_range db a ?e), ?tot)"
    using svc by blast
  have "take (nat (a - 1)) db @ rows_in_range db a ?e = take (nat ?e) db"
    using Suc.prems(1) step(2) c by (intro take_rows_in_range) simp_all
  moreover have "take (nat ?e) db = take (nat (a + chunk - 1)) db"
    by (cases "a + chunk - 1 \<le> ?tot") (simp_all add: min_def)
  ultimately have rows: "extend (XList (take (nat (a - 1)) db)) (XList (rows_in_range db a ?e))
      = Inr (XList (take (nat (a + chunk - 1)) db))"
    by (simp add: extend_lists)
  have "2 \<le> a + chunk" using Suc.prems(1) c by simp
  from Suc.IH[OF this step(1), of "sent @ [(a, ?e)]"]
  show ?case
    unfolding map_upt_shift using p rows by (simp add: Let_def)
qed

lemma upto_append: "a \<le> b + 1 \<Longrightarrow> [a..b] @ [b + 1..c] = (if b \<le> c then [a..c] else [a..b])"
proof (cases "b \<le> c")
  case True
  assume "a \<le> b + 1"
  then show ?thesis
  proof (cases "a \<le> b")
    case True
    then show ?thesis using \<open>b \<le> c\<close> upto_split2[of a b c] by simp
  next
    case False
    then have "a = b + 1" using \<open>a \<le> b + 1\<close> by simp
    then show ?thesis using \<open>b \<le> c\<close> by simp
  qed
next
  case False
  then show ?thesis by simp
qed

lemma requested_pages:
  "1 \<le> chunk \<Longrightarrow> pages_end tot chunk a n \<Longrightarrow>
   requested (map (\<lambda>start. (start, min (start + chunk - 1) tot))
                 (map (\<lambda>i. a + int i * chunk) [0..<n])) = [a..tot]"
proof (induction n arbitrary: a)
  case 0
  then show ?case by (simp add: requested_def pages_end_def)
next
  case (Suc n)
  have step: "pages_end tot chunk (a + chunk) n" "a \<le> tot"
    using pages_end_step[of chunk tot a n] Suc.prems by simp_all
  have ih: "requested (map (\<lambda>start. (start, min (start + chunk - 1) tot))
                 (map (\<lambda>i. (a + chunk) + int i * chunk) [0..<n])) = [a + chunk..tot]"
    using Suc.IH[OF Suc.prems(1) step(1)] .
  have "[a..min (a + chunk - 1) tot] @ [a + chunk..tot] = [a..tot]"
  proof (cases "a + chunk - 1 \<le> tot")
    case True
    then show ?thesis
      using upto_append[of a "a + chunk - 1" tot] Suc.prems(1) by (simp add: min_def)
  next
    case False
    then show ?thesis by (simp add: min_def)
  qed
  then show ?case
    unfolding map_upt_shift using ih by (simp add: requested_def)
qed

lemma disjoint_concat:
  "distinct (concat xss) \<Longrightarrow> i < j \<Longrightarrow> j < length xss \<Longrightarrow> set (xss ! i) \<inter> set (xss ! j) = {}"
proof (induction xss arbitrary: i j)
  case Nil
  then show ?case by simp
next
  case (Cons xs xss)
  obtain j' where j': "j = Suc j'" using Cons.prems(2) by (cases j) auto
  show ?case
  proof (cases i)
    case 0
    have "xss ! j' \<in> set xss" using Cons.prems(3) j' by simp
    then have "set (xss ! j') \<subseteq> set (concat xss)" by auto
    then show ?thesis using 0 j' Cons.prems(1) by auto
  next
    case (Suc i')
    then show ?thesis using Cons j' by auto
  qed
qed

lemma ranges_disjoint:
  assumes "distinct (requested sent)" and "i < j" and "j < length sent"
  shows "{fst (sent ! i)..snd (sent ! i)} \<inter> {fst (sent ! j)..snd (sent ! j)} = {}"
proof -
  let ?xss = "map (\<lambda>(s, e). [s..e]) sent"
  have i: "i < length sent" using assms(2,3) by simp
  have "set (?xss ! i) \<inter> set (?xss ! j) = {}"
    using assms by (intro disjoint_concat) (simp_all add: requested_def)
  moreover have "?xss ! i = [fst (sent ! i)..snd (sent ! i)]"
    using i by (simp add: case_prod_beta)
  moreover have "?xss ! j = [fst (sent ! j)..snd (sent ! j)]"
    using assms(3) by (simp add: case_prod_beta)
  ultimately show ?thesis by simp
qed

lemma ranges_union: "(\<Union>(s, e) \<in> set sent. {s..e}) = set (requested sent)"
  unfolding requested_def by auto

lemma py_int_3: "py_int [51] = Inr 3"
  by (simp add: py_int_def to_ascii_def c_isspace_def ascii_digit_def int_max_str_digits_def
      digits_value_def)

lemma py_int_0: "py_int [48] = Inr 0"
  by (simp add: py_int_def to_ascii_def c_isspace_def ascii_digit_def int_max_str_digits_def
      digits_value_def)

lemma fetch_pages_lists:
  assumes "\<forall>s e. \<exists>p rows t. svc s e = Inr p \<and> parse_xml p = Inr (XList rows, t)"
  shows "\<exists>rows'. fetch_pages svc chunk tot starts sent (XList rows)
     = (sent @ map (\<lambda>start. (start, min (start + chunk - 1) tot)) starts, Inr (XList rows'))"
proof (induction starts arbitrary: sent rows)
  case Nil
  then show ?case by simp
next
  case (Cons start starts)
  let ?e = "min (start + chunk - 1) tot"
  obtain p add t where p: "svc start ?e = Inr p" "parse_xml p = Inr (XList add, t)"
    using assms by blast
  obtain rows' where "fetch_pages svc chunk tot starts (sent @ [(start, ?e)]) (XList (rows @ add))
      = ((sent @ [(start, ?e)]) @ map (\<lambda>start. (start, min (start + chunk - 1) tot)) starts,
         Inr (XList rows'))"
    using Cons.IH by blast
  then show ?case using p by (simp add: Let_def extend_lists)
qed

lemma page_requests_eq:
  "1 \<le> chunk \<Longrightarrow> page_requests tot chunk =
     (1, 1) # map (\<lambda>start. (start, min (start + chunk - 1) tot))
                (map (\<lambda>i. 2 + int i * chunk) [0..<nat ((tot + 1 - 2 + chunk - 1) div chunk)])"
  by (simp add: page_requests_def py_range_up)

lemma requested_page_requests:
  assumes "1 \<le> chunk"
  shows "requested (page_requests tot chunk) = [1..max 1 tot]"
proof -
  let ?n = "nat ((tot + 1 - 2 + chunk - 1) div chunk)"
  let ?pages = "map (\<lambda>start. (start, min (start + chunk - 1) tot))
                  (map (\<lambda>i. 2 + int i * chunk) [0..<?n])"
  have pe: "pages_end tot chunk 2 ?n" using assms by (intro pages_end_first) simp
  have "requested ?pages = [2..tot]" using requested_pages[OF assms pe] .
  then have "requested ((1, 1) # ?pages) = [1..1] @ [2..tot]" by (simp add: requested_def)
  also have "\<dots> = [1..max 1 tot]" using upto_append[of 1 1 tot] by (simp add: max_def)
  finally show ?thesis using assms by (simp only: page_requests_eq)
qed

text \<open>The rows handed to \<open>pd.DataFrame\<close> are never a mapping.\<close>

lemma parse_xml_not_mapping: "parse_xml p = Inr (rows, t) \<Longrightarrow> \<not> is_mapping rows"
  by (auto simp: parse_xml_def is_mapping_def Let_def
      split: xval.splits option.splits sum.splits)

lemma extend_not_mapping: "extend rows add = Inr rows' \<Longrightarrow> \<not> is_mapping rows'"
  by (auto simp: extend_def is_mapping_def split: xval.splits)

lemma fetch_pages_not_mapping:
  "fetch_pages svc chunk tot starts sent rows = (sent', Inr rows') \<Longrightarrow>
   \<not> is_mapping rows \<Longrightarrow> \<not> is_mapping rows'"
proof (induction starts arbitrary: sent rows)
  case Nil
  then show ?case by simp
next
  case (Cons start starts)
  then show ?case
    by (auto simp: Let_def split: sum.splits prod.splits dest: extend_not_mapping)
qed

lemma DataFrame_records:
  "list_all is_mapping db \<Longrightarrow> DataFrame (XList db) = Inr (Records (map fields db))"
  by (cases db) (auto simp: DataFrame_def is_mapping_def split: xval.splits)

text \<open>
  C6 (as amended). For every page size of at least one and every total \<open>tot\<close>, the
  requests of a run that nothing cuts short are \<open>[1, 1]\<close> and then
  \<open>[start, min(start + chunk - 1, tot)]\<close> for \<open>start = 2, 2 + chunk, ...\<close>; they
  are pairwise disjoint, and their union is the range from 1 to the total, or the
  single row number 1 when the total is below 1. These are the requests that
  \<open>fetch_xml_full\<close> sends whenever the first answer declares \<open>tot\<close> and every answer
  decodes to a list of rows, whatever rows they are. With a service that answers
  each request with the rows of its range and declares the number of rows of \<open>db\<close>,
  the table is built from exactly the rows of \<open>db\<close>, each once and in order; it
  holds one record for each when every row is a mapping of fields.
\<close>

theorem fetch_pagination:
  assumes "1 \<le> chunk"
  shows "page_requests tot chunk =
       (1, 1) # map (\<lambda>start. (start, min (start + chunk - 1) tot))
                  (map (\<lambda>i. 2 + int i * chunk) [0..<nat ((tot + chunk - 2) div chunk)])
     \<and> (\<forall>i j. i < j \<and> j < length (page_requests tot chunk) \<longrightarrow>
            {fst (page_requests tot chunk ! i)..snd (page_requests tot chunk ! i)}
            \<inter> {fst (page_requests tot chunk ! j)..snd (page_requests tot chunk ! j)} = {})
     \<and> (\<Union>(s, e) \<in> set (page_requests tot chunk). {s..e}) = {1..max 1 tot}
     \<and> (svc 1 1 = Inr p0 \<and> parse_xml p0 = Inr (XList rows0, tot)
          \<and> (\<forall>s e. \<exists>p rows t. svc s e = Inr p \<and> parse_xml p = Inr (XList rows, t))
        \<longrightarrow> fst (fetch_xml_full svc chunk) = page_requests tot chunk)
     \<and> ((\<forall>s e. \<exists>p. svc s e = Inr p
             \<and> parse_xml p = Inr (XList (rows_in_range db s e), int (length db)))
        \<longrightarrow> fetch_xml_full svc chunk
              = (page_requests (int (length db)) chunk, DataFrame (XList db))
            \<and> (list_all is_mapping db \<longrightarrow> DataFrame (XList db) = Inr (Records (map fields db))))"
proof -
  have form: "page_requests tot chunk =
       (1, 1) # map (\<lambda>start. (start, min (start + chunk - 1) tot))
                  (map (\<lambda>i. 2 + int i * chunk) [0..<nat ((tot + chunk - 2) div chunk)])"
    using assms by (simp add: page_requests_eq algebra_simps)
  have req: "requested (page_requests tot chunk) = [1..max 1 tot]"
    using assms by (rule requested_page_requests)
  have dis: "{fst (page_requests tot chunk ! i)..snd (page_requests tot chunk ! i)}
            \<inter> {fst (page_requests tot chunk ! j)..snd (page_requests tot chunk ! j)} = {}"
    if "i < j" "j < length (page_requests tot chunk)" for i j
    using that req by (intro ranges_disjoint) simp_all
  have un: "(\<Union>(s, e) \<in> set (page_requests tot chunk). {s..e}) = {1..max 1 tot}"
    unfolding ranges_union req by simp
  have sent: "fst (fetch_xml_full svc chunk) = page_requests tot chunk"
    if first: "svc 1 1 = Inr p0" "parse_xml p0 = Inr (XList rows0, tot)"
      and lists: "\<forall>s e. \<exists>p rows t. svc s e = Inr p \<and> parse_xml p = Inr (XList rows, t)"
  proof -
    let ?starts = "map (\<lambda>i. 2 + int i * chunk) [0..<nat ((tot + 1 - 2 + chunk - 1) div chunk)]"
    have range: "py_range 2 (tot + 1) chunk = Inr ?starts"
      using assms by (simp add: py_range_up)
    obtain rows' where "fetch_pages svc chunk tot ?starts [(1, 1)] (XList rows0)
        = ([(1, 1)] @ map (\<lambda>start. (start, min (start + chunk - 1) tot)) ?starts,
           Inr (XList rows'))"
      using fetch_pages_lists[OF lists] by blast
    then show ?thesis
      unfolding fetch_xml_full_def using first range assms
      by (simp add: page_requests_eq)
  qed
  have ideal: "fetch_xml_full svc chunk
        = (page_requests (int (length db)) chunk, DataFrame (XList db))"
    if svc: "\<forall>s e. \<exists>p. svc s e = Inr p
             \<and> parse_xml p = Inr (XList (rows_in_range db s e), int (length db))"
  proof -
    let ?tot = "int (length db)"
    let ?n = "nat ((?tot + 1 - 2 + chunk - 1) div chunk)"
    let ?starts = "map (\<lambda>i. 2 + int i * chunk) [0..<?n]"
    let ?pages = "map (\<lambda>start. (start, min (start + chunk - 1) ?tot)) ?starts"
    have pe: "pages_end ?tot chunk 2 ?n" using assms by (intro pages_end_first) simp
    obtain p where p: "svc 1 1 = Inr p"
        "parse_xml p = Inr (XList (rows_in_range db 1 1), ?tot)"
      using svc by blast
    have first: "rows_in_range db 1 1 = take (nat (2 - 1)) db"
      by (simp add: rows_in_range_def)
    have range: "py_range 2 (?tot + 1) chunk = Inr ?starts"
      using assms by (simp add: py_range_up)
    have pages: "fetch_pages svc chunk ?tot ?starts [(1, 1)] (XList (take (nat (2 - 1)) db))
        = ([(1, 1)] @ ?pages, Inr (XList db))"
      using fetch_pages_ideal[OF assms svc, of 2 ?n "[(1, 1)]"] pe by simp
    show ?thesis
      unfolding fetch_xml_full_def using p first range pages assms
      by (simp add: page_requests_eq)
  qed
  have c2: "\<forall>i j. i < j \<and> j < length (page_requests tot chunk) \<longrightarrow>
            {fst (page_requests tot chunk ! i)..snd (page_requests tot chunk ! i)}
            \<inter> {fst (page_requests tot chunk ! j)..snd (page_requests tot chunk ! j)} = {}"
    using dis by blast
  have c4: "svc 1 1 = Inr p0 \<and> parse_xml p0 = Inr (XList rows0, tot)
          \<and> (\<forall>s e. \<exists>p rows t. svc s e = Inr p \<and> parse_xml p = Inr (XList rows, t))
        \<longrightarrow> fst (fetch_xml_full svc chunk) = page_requests tot chunk"
    using sent by blast
  have c5: "(\<forall>s e. \<exists>p. svc s e = Inr p
             \<and> parse_xml p = Inr (XList (rows_in_range db s e), int (length db)))
        \<longrightarrow> fetch_xml_full svc chunk
              = (page_requests (int (length db)) chunk, DataFrame (XList db))
            \<and> (list_all is_mapping db \<longrightarrow> DataFrame (XList db) = Inr (Records (map fields db)))"
    using ideal DataFrame_records by blast
  from form c2 un c4 c5 show ?thesis by (intro conjI)
qed

theorem fetch_pagination_witness:
  "(1 :: int) \<le> 2
   \<and> (\<forall>s e. \<exists>p.
         (\<lambda>s e. Inr (''response'', XDict [(''list_total_count'', XStr [51]),
            (''row'', XList (rows_in_range
               [XDict [(''NO'', XStr [49])], XDict [(''NO'', XStr [50])], XDict [(''NO'', XStr [51])]]
               s e))])) s e = Inr p
         \<and> parse_xml p = Inr (XList (rows_in_range
               [XDict [(''NO'', XStr [49])], XDict [(''NO'', XStr [50])], XDict [(''NO'', XStr [51])]]
               s e),
             int (length [XDict [(''NO'', XStr [49])], XDict [(''NO'', XStr [50])],
                          XDict [(''NO'', XStr [51])]])))
   \<and> list_all is_mapping
        [XDict [(''NO'', XStr [49])], XDict [(''NO'', XStr [50])], XDict [(''NO'', XStr [51])]]
   \<and> fetch_xml_full
        (\<lambda>s e. Inr (''response'', XDict [(''list_total_count'', XStr [51]),
            (''row'', XList (rows_in_range
               [XDict [(''NO'', XStr [49])], XDict [(''NO'', XStr [50])], XDict [(''NO'', XStr [51])]]
               s e))])) 2
      = ([(1, 1), (2, 3)],
         Inr (Records [[(''NO'', XStr [49])], [(''NO'', XStr [50])], [(''NO'', XStr [51])]]))"
proof -
  let ?db = "[XDict [(''NO'', XStr [49])], XDict [(''NO'', XStr [50])], XDict [(''NO'', XStr [51])]]"
  let ?svc = "\<lambda>s e. Inr (''response'', XDict [(''list_total_count'', XStr [51]),
            (''row'', XList (rows_in_range ?db s e))]) :: error + envelope"
  have h1: "(1 :: int) \<le> 2" by simp
  have h2: "\<forall>s e. \<exists>p. ?svc s e = Inr p
      \<and> parse_xml p = Inr (XList (rows_in_range ?db s e), int (length ?db))"
    by (simp add: parse_xml_def int_xval_def py_int_3)
  have h3: "list_all is_mapping ?db" by (simp add: is_mapping_def)
  have "fetch_xml_full ?svc 2
      = (page_requests (int (length ?db)) 2, DataFrame (XList ?db))
      \<and> DataFrame (XList ?db) = Inr (Records (map fields ?db))"
    using fetch_pagination[OF h1, where svc = ?svc and db = ?db] h2 h3 by blast
  moreover have "page_requests (int (length ?db)) 2 = [(1, 1), (2, 3)]"
    using fetch_pagination[OF h1, of "int (length ?db)"] by (simp add: upt_conv_Cons)
  ultimately have "fetch_xml_full ?svc 2
      = ([(1, 1), (2, 3)], Inr (Records [[(''NO'', XStr [49])], [(''NO'', XStr [50])],
                                         [(''NO'', XStr [51])]]))"
    by (simp add: fields_def)
  then show ?thesis using h1 h2 h3 by blast
qed

text \<open>
  With a declared total of 0 the first request \<open>[1, 1]\<close> is sent all the same (the
  total is only known from its answer), so the union of the requested ranges is not
  the empty range from 1 to 0. And with a service that answers each request with
  the rows of its range, a data set whose second row is an empty element, decoded as
  \<open>None\<close>, gives no table: \<open>pd.DataFrame\<close> raises on it.
\<close>

theorem fetch_empty_total_counterexample:
  "fetch_xml_full (\<lambda>s e. Inr (''response'', XDict [(''list_total_count'', XStr [48])])) 1
     = ([(1, 1)], Inr (Records []))
   \<and> set (requested (fst (fetch_xml_full
        (\<lambda>s e. Inr (''response'', XDict [(''list_total_count'', XStr [48])])) 1))) \<noteq> {1..0}
   \<and> fetch_xml_full
        (\<lambda>s e. Inr (''response'', XDict [(''list_total_count'', XStr [50]),
           (''row'', XList (rows_in_range [XDict [(''NO'', XStr [49])], XNone] s e))])) 1
     = ([(1, 1), (2, 2)], Inl AttributeError)"
proof -
  have a: "fetch_xml_full (\<lambda>s e. Inr (''response'', XDict [(''list_total_count'', XStr [48])])) 1
     = ([(1, 1)], Inr (Records []))"
    by (simp add: fetch_xml_full_def parse_xml_def int_xval_def py_int_0 py_range_def DataFrame_def)
  have "py_int [50] = Inr 2"
    by (simp add: py_int_def to_ascii_def c_isspace_def ascii_digit_def int_max_str_digits_def
        digits_value_def)
  then have b: "fetch_xml_full
        (\<lambda>s e. Inr (''response'', XDict [(''list_total_count'', XStr [50]),
           (''row'', XList (rows_in_range [XDict [(''NO'', XStr [49])], XNone] s e))])) 1
     = ([(1, 1), (2, 2)], Inl AttributeError)"
    by (simp add: fetch_xml_full_def parse_xml_def int_xval_def py_range_def DataFrame_def
        rows_in_range_def extend_def is_mapping_def)
  show ?thesis using a b by (simp add: requested_def)
qed

section \<open>Properties of the envelope decoder\<close>

text \<open>
  C9 (as amended). For a decoded envelope whose root is a mapping with a
  \<open>list_total_count\<close> that \<open>int\<close> accepts, \<open>parse_xml\<close> returns that integer as the
  total, and as rows the empty list when there is no \<open>row\<close> entry, the one-element
  list of the mapping when the entry is a single mapping, and the list itself when
  the entry is a list.
\<close>

theorem parse_xml_rows:
  assumes "map_of d ''list_total_count'' = Some t" and "int_xval t = Inr n"
  shows "(map_of d ''row'' = None \<longrightarrow> parse_xml (tag, XDict d) = Inr (XList [], n))
    \<and> (map_of d ''row'' = Some (XDict r) \<longrightarrow> parse_xml (tag, XDict d) = Inr (XList [XDict r], n))
    \<and> (map_of d ''row'' = Some (XList rs) \<longrightarrow> parse_xml (tag, XDict d) = Inr (XList rs, n))"
  using assms by (simp add: parse_xml_def)

theorem parse_xml_rows_witness:
  "map_of [(''list_total_count'', XStr [51]), (''row'', XDict [(''STN_NM'', XStr [54633, 51221])])]
      ''list_total_count'' = Some (XStr [51])
   \<and> int_xval (XStr [51]) = Inr 3
   \<and> parse_xml (''SeoulMetroFaciInfo'',
        XDict [(''list_total_count'', XStr [51]), (''row'', XDict [(''STN_NM'', XStr [54633, 51221])])])
      = Inr (XList [XDict [(''STN_NM'', XStr [54633, 51221])]], 3)"
proof -
  let ?d = "[(''list_total_count'', XStr [51]), (''row'', XDict [(''STN_NM'', XStr [54633, 51221])])]"
  have h1: "map_of ?d ''list_total_count'' = Some (XStr [51])" by simp
  have h2: "int_xval (XStr [51]) = Inr 3" by (simp add: int_xval_def py_int_3)
  have "map_of ?d ''row'' = Some (XDict [(''STN_NM'', XStr [54633, 51221])])" by simp
  then show ?thesis
    using parse_xml_rows[OF h1 h2, where r = "[(''STN_NM'', XStr [54633, 51221])]"
        and tag = "''SeoulMetroFaciInfo''"]
      h1 h2 by blast
qed

text \<open>
  An envelope without \<open>list_total_count\<close> (the service's answer when it has no data
  carries only a code and a message) makes \<open>parse_xml\<close> raise \<open>KeyError\<close>; and an
  empty \<open>row\<close> element, decoded as \<open>None\<close>, is returned as it is, not as a list.
\<close>

theorem parse_xml_no_total_counterexample:
  "parse_xml (''RESULT'', XDict [(''CODE'', XStr [73, 78, 70, 79, 45, 50, 48, 48])]) = Inl KeyError
   \<and> parse_xml (''response'', XDict [(''list_total_count'', XStr [49]), (''row'', XNone)])
      = Inr (XNone, 1)"
  by (simp add: parse_xml_def int_xval_def py_int_def to_ascii_def c_isspace_def ascii_digit_def
      int_max_str_digits_def digits_value_def)

section \<open>Properties of the presenter\<close>

lemma avail_iff:
  "label \<in> set (avail row) \<longleftrightarrow> (\<exists>code. (code, label) \<in> set fmap \<and> row code = Some (Str [89]))"
proof -
  have "cell_at row code = Str [89] \<longleftrightarrow> row code = Some (Str [89])" for code
    using cell_at_Str[of "[89]" row code] by auto
  then show ?thesis by (auto simp: avail_def image_iff)
qed

lemma isin_rows_first:
  assumes "\<forall>r \<in> set pre. \<forall>s \<in> set tgts. r col \<noteq> Some (Str s)"
    and "row col = Some (Str t)" and "t \<in> set tgts"
  shows "isin_rows (pre @ row # rest) col tgts = row # isin_rows rest col tgts"
proof -
  have "filter (\<lambda>r. case cell_at r col of Str s \<Rightarrow> s \<in> set tgts | _ \<Rightarrow> False) pre = []"
    using assms(1) by (auto simp: filter_empty_conv cell_at_def split: option.splits cell.splits)
  moreover have "cell_at row col = Str t" using assms(2) by (simp add: cell_at_def)
  ultimately show ?thesis using assms(3) by (simp add: isin_rows_def)
qed

text \<open>
  C8. The amenity section is computed from the first row of the table whose station
  name is one of the targets: the rows before it, which do not match, and all rows
  behind it, matching or not, have no part in it. A label is shown exactly when one
  of the ten codes carries it and that row holds \<open>Y\<close> under the code; a code the row
  does not have contributes nothing. When the row holds \<open>Y\<close> under \<open>EL\<close> and under no
  other code, the section shows the elevator label alone.
\<close>

theorem amenity_filter:
  assumes "\<forall>r \<in> set pre. \<forall>s \<in> set tgts. r ''STATION_NAME'' \<noteq> Some (Str s)"
    and "row ''STATION_NAME'' = Some (Str t)" and "t \<in> set tgts"
  shows "amenities (pre @ row # rest) tgts = Available (avail row)
    \<and> (\<forall>label. label \<in> set (avail row)
          \<longleftrightarrow> (\<exists>code. (code, label) \<in> set fmap \<and> row code = Some (Str [89])))
    \<and> length fmap = 10
    \<and> (row ''EL'' = Some (Str [89])
         \<and> (\<forall>code \<in> set (map fst fmap) - {''EL''}. row code \<noteq> Some (Str [89]))
       \<longrightarrow> amenities (pre @ row # rest) tgts = Available [[50648, 47532, 48288, 51060, 53552]])"
proof -
  have col: "has_column (pre @ row # rest) ''STATION_NAME''"
    using assms(2) by (simp add: has_column_def)
  have first: "isin_rows (pre @ row # rest) ''STATION_NAME'' tgts
      = row # isin_rows rest ''STATION_NAME'' tgts"
    using assms by (rule isin_rows_first)
  have shown: "amenities (pre @ row # rest) tgts = Available (avail row)"
    using col first by (simp add: amenities_def)
  have "avail row = [[50648, 47532, 48288, 51060, 53552]]"
    if "row ''EL'' = Some (Str [89])"
      and "\<forall>code \<in> set (map fst fmap) - {''EL''}. row code \<noteq> Some (Str [89])"
  proof -
    have "cell_at row code = Str [89] \<longleftrightarrow> row code = Some (Str [89])" for code
      using cell_at_Str[of "[89]" row code] by auto
    then show ?thesis using that by (simp add: avail_def fmap_def)
  qed
  then have el: "row ''EL'' = Some (Str [89])
         \<and> (\<forall>code \<in> set (map fst fmap) - {''EL''}. row code \<noteq> Some (Str [89]))
       \<longrightarrow> amenities (pre @ row # rest) tgts = Available [[50648, 47532, 48288, 51060, 53552]]"
    using shown by simp
  have ten: "length fmap = 10" by (simp add: fmap_def)
  have mem: "\<forall>label. label \<in> set (avail row)
          \<longleftrightarrow> (\<exists>code. (code, label) \<in> set fmap \<and> row code = Some (Str [89]))"
    using avail_iff by blast
  from shown mem ten el show ?thesis by (intro conjI)
qed

text \<open>
  A table of three rows: another station with a wheelchair lift, then the station
  asked for with an elevator, then the same station again with a parking lot. Only
  the elevator is shown.
\<close>

theorem amenity_filter_witness:
  "amenities
     [[''STATION_NAME'' \<mapsto> Str [54633, 51221], ''EL'' \<mapsto> Str [78], ''WL'' \<mapsto> Str [89]],
      [''STATION_NAME'' \<mapsto> Str [49888, 52492, 40, 50, 41], ''EL'' \<mapsto> Str [89], ''WL'' \<mapsto> Str [78]],
      [''STATION_NAME'' \<mapsto> Str [49888, 52492], ''EL'' \<mapsto> Str [78], ''PARKING'' \<mapsto> Str [89]]]
     [[49888, 52492], [49888, 52492, 40, 50, 41]]
   = Available [[50648, 47532, 48288, 51060, 53552]]
   \<and> avail [''STATION_NAME'' \<mapsto> Str [54633, 51221], ''EL'' \<mapsto> Str [78], ''WL'' \<mapsto> Str [89]]
     = [[55072, 52404, 50612, 47532, 54532, 53944]]"
proof -
  let ?other = "[''STATION_NAME'' \<mapsto> Str [54633, 51221], ''EL'' \<mapsto> Str [78], ''WL'' \<mapsto> Str [89]]"
  let ?row = "[''STATION_NAME'' \<mapsto> Str [49888, 52492, 40, 50, 41], ''EL'' \<mapsto> Str [89],
               ''WL'' \<mapsto> Str [78]]"
  let ?again = "[''STATION_NAME'' \<mapsto> Str [49888, 52492], ''EL'' \<mapsto> Str [78],
                 ''PARKING'' \<mapsto> Str [89]]"
  let ?tgts = "[[49888, 52492], [49888, 52492, 40, 50, 41]] :: pystr list"
  have h1: "\<forall>r \<in> set [?other]. \<forall>s \<in> set ?tgts. r ''STATION_NAME'' \<noteq> Some (Str s)" by simp
  have h2: "?row ''STATION_NAME'' = Some (Str [49888, 52492, 40, 50, 41])" by simp
  have h3: "[49888, 52492, 40, 50, 41] \<in> set ?tgts" by simp
  have h4: "?row ''EL'' = Some (Str [89])" by simp
  have h5: "\<forall>code \<in> set (map fst fmap) - {''EL''}. ?row code \<noteq> Some (Str [89])"
    by (simp add: fmap_def)
  have "amenities ([?other] @ ?row # [?again]) ?tgts
      = Available [[50648, 47532, 48288, 51060, 53552]]"
    using amenity_filter[where pre = "[?other]" and tgts = ?tgts and row = ?row
        and t = "[49888, 52492, 40, 50, 41]" and rest = "[?again]"] h1 h2 h3 h4 h5
    by blast
  moreover have "avail ?other = [[55072, 52404, 50612, 47532, 54532, 53944]]"
    by (simp add: avail_def fmap_def cell_at_def)
  ultimately show ?thesis by simp
qed

section \<open>The length column\<close>

lemma is_digit_superscript_two: "is_digit 178"
  by (simp add: is_digit_def digit_ranges_def)

lemma decimal_value_superscript_two: "decimal_value 178 = None"
  by (simp add: decimal_value_def decimal_blocks_def)

text \<open>
  C7. The string made of the character superscript two (U+00B2, code point 178)
  passes \<open>str.isdigit()\<close>, since the character has a digit value, but \<open>int()\<close>
  refuses it, since it has no decimal value: the rendering of this length raises
  \<open>ValueError\<close>. The specification says that the rendering never raises.
\<close>

theorem render_length_superscript:
  "isdigit (str_cell (Str [178])) \<and> int_cell (Str [178]) = Inl ValueError
   \<and> render_length (Str [178]) = Inl ValueError"
proof -
  have d: "isdigit (str_cell (Str [178]))"
    by (simp add: isdigit_def str_cell_def is_digit_superscript_two)
  have "to_ascii 178 = None"
    by (simp add: to_ascii_def is_space_def decimal_value_superscript_two)
  then have i: "int_cell (Str [178]) = Inl ValueError"
    by (simp add: int_cell_def py_int_def)
  show ?thesis using d i by (simp add: render_length_def)
qed

text \<open>
  On the values the guard was written for, the rendering is as specified: a string of
  ASCII digits gives the number divided by 1000 and the unit, and a value that fails
  \<open>isdigit\<close> (text with any other character, \<open>None\<close>, NaN) gives the placeholder.
\<close>

lemma ascii_digit_is_digit: "ascii_digit c \<Longrightarrow> is_digit c"
  by (simp add: ascii_digit_def is_digit_def decimal_value_def decimal_blocks_def)

lemma those_to_ascii: "list_all (\<lambda>c. c < 128) s \<Longrightarrow> those (map to_ascii s) = Some s"
  by (induction s) (simp_all add: to_ascii_def)

lemma no_double_underscore: "95 \<notin> set s \<Longrightarrow> \<not> double_underscore s"
  by (induction s rule: double_underscore.induct) auto

lemma py_int_ascii_digits:
  assumes "s \<noteq> []" and "list_all ascii_digit s" and "length s \<le> int_max_str_digits"
  shows "py_int s = Inr (int (digits_value s))"
proof -
  have all: "\<forall>c \<in> set s. 48 \<le> c \<and> c \<le> 57"
    using assms(2) by (simp add: list_all_iff ascii_digit_def)
  have t: "those (map to_ascii s) = Some s"
    using all by (intro those_to_ascii) (auto simp: list_all_iff)
  obtain c cs where s: "s = c # cs" using assms(1) by (cases s) auto
  have c: "48 \<le> c" "c \<le> 57" using all s by auto
  have a1: "dropWhile c_isspace s = s" using c s by (simp add: c_isspace_def)
  have hd: "hd s \<noteq> 45" "hd s \<noteq> 43" "hd s \<noteq> 95" using c s by auto
  have body: "takeWhile (\<lambda>c. ascii_digit c \<or> c = 95) s = s"
    using assms(2) by (simp add: takeWhile_eq_all_conv list_all_iff)
  have trail: "dropWhile (\<lambda>c. ascii_digit c \<or> c = 95) s = []"
    using assms(2) by (simp add: list_all_iff)
  have "last s \<in> set s" using assms(1) by simp
  then have last: "last s \<noteq> 95" using all by auto
  have "95 \<notin> set s" using all by auto
  then have du: "\<not> double_underscore s" by (rule no_double_underscore)
  have ds: "filter ascii_digit s = s" using assms(2) by (simp add: list_all_iff)
  show ?thesis
    unfolding py_int_def t
    using assms(1,3) by (simp add: Let_def a1 hd body trail last du ds)
qed

lemma render_length_ascii_digits:
  assumes "s \<noteq> []" and "list_all ascii_digit s" and "length s \<le> int_max_str_digits"
  shows "render_length (Str s) = Inr (str_int (int (digits_value s) div 1000) @ [32, 109])"
proof -
  have "isdigit s"
    using assms(1,2) by (auto simp: isdigit_def list_all_iff ascii_digit_is_digit)
  then show ?thesis
    using py_int_ascii_digits[OF assms] by (simp add: render_length_def str_cell_def int_cell_def)
qed

lemma render_length_not_digit: "\<not> isdigit (str_cell v) \<Longrightarrow> render_length v = Inr [45]"
  by (simp add: render_length_def)

lemma render_length_15000: "render_length (Str [49, 53, 48, 48, 48]) = Inr [49, 53, 32, 109]"
proof -
  have "digits_value [49, 53, 48, 48, 48] = 15000" by (simp add: digits_value_def)
  then show ?thesis
    using render_length_ascii_digits[of "[49, 53, 48, 48, 48]"]
    by (simp add: ascii_digit_def int_max_str_digits_def str_int_def)
qed

lemma render_length_missing: "render_length PyNone = Inr [45] \<and> render_length NaN = Inr [45]"
  by (simp add: render_length_def isdigit_def str_cell_def is_digit_def decimal_value_def
      decimal_blocks_def digit_ranges_def)


end
